theory Spec2Isabelle
  imports Main
begin

unbundle bit_operations_syntax

section \<open>Subnet utilities: the embedding\<close>

text \<open>
  The module \<^verbatim>\<open>subnet-utils\<close> works on strings and on numbers that are
  integers or NaN. Strings are modelled as \<^typ>\<open>string\<close>, with characters read as 8-bit
  code units; a character beyond that range behaves in the module like any other character
  that is neither a digit nor a dot, except that \<^verbatim>\<open>parseInt\<close> skips a few more kinds
  of white space. Numbers are modelled as \<^typ>\<open>int option\<close>, \<open>None\<close> standing for NaN.
  The model of a number is exact below \<open>2 ^ 53\<close>; beyond that the host language rounds, which
  changes no comparison with 0, 32 or 255 made here. A thrown \<^verbatim>\<open>Error\<close> becomes a
  value of the type \<open>error\<close>, named after the kind of failure its message reports; the
  \<^verbatim>\<open>catch\<close> blocks of the module only put a text in front of the message, so they
  keep the kind.
\<close>

subsection \<open>Errors and the result record\<close>

datatype error =
    InvalidAddress          \<comment> \<open>\<^verbatim>\<open>Endereco IP invalido\<close>, \<^verbatim>\<open>Um ou mais enderecos IP sao invalidos\<close>\<close>
  | InvalidMask             \<comment> \<open>\<^verbatim>\<open>Mascara de sub-rede invalida\<close>\<close>
  | InvalidCidr             \<comment> \<open>\<^verbatim>\<open>Valor CIDR invalido. Deve estar entre 0 e 32\<close>\<close>
  | OutOfRange              \<comment> \<open>\<^verbatim>\<open>CIDR deve estar entre 0 e 32\<close>\<close>
  | InvalidFormat           \<comment> \<open>\<^verbatim>\<open>Formato binario invalido\<close>\<close>
  | AddressSpaceExhausted   \<comment> \<open>\<^verbatim>\<open>Estouro: endereco IP maximo/minimo atingido\<close>\<close>

type_synonym number = "int option"

record SubnetInfo =
  networkAddress :: string
  broadcastAddress :: string
  firstHost :: string
  lastHost :: string
  totalHosts :: int
  usableHosts :: int
  subnetMask :: string
  wildcardMask :: string
  binaryIP :: string
  binaryMask :: string

subsection \<open>Strings of the host language\<close>

definition isDigit :: "char \<Rightarrow> bool" where
  \<comment> \<open>the class \<^verbatim>\<open>\d\<close>: the ten ASCII digits\<close>
  "isDigit c = (48 \<le> (of_char c :: nat) \<and> (of_char c :: nat) \<le> 57)"

definition isBin :: "char \<Rightarrow> bool" where
  \<comment> \<open>the class \<^verbatim>\<open>[01]\<close>\<close>
  "isBin c = (c = CHR ''0'' \<or> c = CHR ''1'')"

definition isWhiteSpace :: "char \<Rightarrow> bool" where
  \<comment> \<open>white space and line terminators among the 8-bit code units: TAB, LF, VT, FF, CR, SP, NBSP\<close>
  "isWhiteSpace c = ((of_char c :: nat) = 9 \<or> (of_char c :: nat) = 10 \<or> (of_char c :: nat) = 11
      \<or> (of_char c :: nat) = 12 \<or> (of_char c :: nat) = 13 \<or> (of_char c :: nat) = 32
      \<or> (of_char c :: nat) = 160)"

definition digitChar :: "nat \<Rightarrow> char" where
  "digitChar n = char_of (48 + n)"

definition digitVal :: "char \<Rightarrow> nat" where
  "digitVal c = of_char c - 48"

definition startsWith :: "string \<Rightarrow> char \<Rightarrow> bool" where
  "startsWith s c = (case s of [] \<Rightarrow> False | x # _ \<Rightarrow> x = c)"

definition substring :: "string \<Rightarrow> nat \<Rightarrow> string" where
  "substring s n = drop n s"

fun splitOn :: "char \<Rightarrow> string \<Rightarrow> string list" where
  \<comment> \<open>\<^verbatim>\<open>s.split(d)\<close>: the empty string splits into one empty piece, so the result
      is never empty and the first case below is never taken\<close>
  "splitOn d [] = [[]]"
| "splitOn d (c # cs) =
     (if c = d then [] # splitOn d cs
      else (case splitOn d cs of [] \<Rightarrow> [[c]] | g # gs \<Rightarrow> (c # g) # gs))"

fun joinWith :: "string \<Rightarrow> string list \<Rightarrow> string" where
  "joinWith sep [] = []"
| "joinWith sep [x] = x"
| "joinWith sep (x # y # ys) = x @ sep @ joinWith sep (y # ys)"

definition padStart :: "nat \<Rightarrow> char \<Rightarrow> string \<Rightarrow> string" where
  "padStart n c s = replicate (n - length s) c @ s"

definition removeDots :: "string \<Rightarrow> string" where
  \<comment> \<open>\<^verbatim>\<open>.replace(/\./g, '')\<close>\<close>
  "removeDots s = filter (\<lambda>c. c \<noteq> CHR ''.'') s"

subsection \<open>Numbers of the host language\<close>

function natToRadix :: "nat \<Rightarrow> nat \<Rightarrow> string" where
  \<comment> \<open>the digits of a natural number in radix 2 or 10, most significant first\<close>
  "natToRadix r n =
     (if n < r \<or> r < 2 then [digitChar n]
      else natToRadix r (n div r) @ [digitChar (n mod r)])"
  by pat_completeness auto
termination
  by (relation "measure (\<lambda>(r, n). n)") auto

declare natToRadix.simps [simp del]

definition toStringRadix :: "number \<Rightarrow> nat \<Rightarrow> string" where
  \<comment> \<open>\<^verbatim>\<open>x.toString(r)\<close> for NaN and for an integer below \<open>10 ^ 21\<close> in size, which
      is printed without an exponent\<close>
  "toStringRadix x r =
     (case x of
        None \<Rightarrow> ''NaN''
      | Some i \<Rightarrow> if i < 0 then CHR ''-'' # natToRadix r (nat (- i)) else natToRadix r (nat i))"

definition toString :: "number \<Rightarrow> string" where
  "toString x = toStringRadix x 10"

fun digitsValue :: "nat \<Rightarrow> nat \<Rightarrow> string \<Rightarrow> nat" where
  \<comment> \<open>the value of a digit string in the given radix, read left to right\<close>
  "digitsValue r acc [] = acc"
| "digitsValue r acc (c # cs) = digitsValue r (acc * r + digitVal c) cs"

definition isRadixDigit :: "nat \<Rightarrow> char \<Rightarrow> bool" where
  \<comment> \<open>a digit of radix 2 or 10\<close>
  "isRadixDigit r c = (48 \<le> (of_char c :: nat) \<and> (of_char c :: nat) < 48 + r)"

definition parseInt :: "string \<Rightarrow> nat \<Rightarrow> number" where
  \<comment> \<open>\<^verbatim>\<open>parseInt(str, radix)\<close> for radix 2 or 10: leading white space is skipped, one
      sign is read, then the longest run of digits; what follows the digits is ignored,
      and no digit at all gives NaN. The result \<open>-0\<close> is read as \<open>0\<close>: the module only
      compares it and takes \<^verbatim>\<open>Math.max(0, .)\<close> of it.\<close>
  "parseInt str radix =
     (let s = dropWhile isWhiteSpace str;
          neg = startsWith s CHR ''-'';
          s' = (if startsWith s CHR ''+'' \<or> startsWith s CHR ''-'' then tl s else s);
          z = takeWhile (isRadixDigit radix) s'
      in if z = [] then None
         else Some ((if neg then - 1 else 1) * int (digitsValue radix 0 z)))"

definition toNumber :: "string \<Rightarrow> number" where
  \<comment> \<open>\<^verbatim>\<open>Number(s)\<close> on the strings a validated address is made of: a run of decimal
      digits (the empty string is 0). Signs, fractions, exponents, hexadecimal literals
      and surrounding white space are outside this model and read as NaN; no such string
      reaches \<^verbatim>\<open>Number\<close> in this module with its value kept.\<close>
  "toNumber s = (if list_all isDigit s then Some (int (digitsValue 10 0 s)) else None)"

definition toInt32 :: "number \<Rightarrow> int" where
  \<comment> \<open>the operand conversion of \<^verbatim>\<open>&\<close> and \<^verbatim>\<open>|\<close>: NaN is 0, an integer wraps to 32 bits, signed\<close>
  "toInt32 x = (case x of None \<Rightarrow> 0 | Some i \<Rightarrow> signed_take_bit 31 i)"

definition num_le :: "number \<Rightarrow> number \<Rightarrow> bool" where
  \<comment> \<open>a comparison with NaN is false\<close>
  "num_le x y = (case x of None \<Rightarrow> False | Some a \<Rightarrow> (case y of None \<Rightarrow> False | Some b \<Rightarrow> a \<le> b))"

definition num_lt :: "number \<Rightarrow> number \<Rightarrow> bool" where
  "num_lt x y = (case x of None \<Rightarrow> False | Some a \<Rightarrow> (case y of None \<Rightarrow> False | Some b \<Rightarrow> a < b))"

definition num_add :: "number \<Rightarrow> number \<Rightarrow> number" where
  "num_add x y = (case x of None \<Rightarrow> None | Some a \<Rightarrow> (case y of None \<Rightarrow> None | Some b \<Rightarrow> Some (a + b)))"

definition num_sub :: "number \<Rightarrow> number \<Rightarrow> number" where
  "num_sub x y = (case x of None \<Rightarrow> None | Some a \<Rightarrow> (case y of None \<Rightarrow> None | Some b \<Rightarrow> Some (a - b)))"

subsection \<open>validateIP\<close>

definition digits_1_3 :: "string \<Rightarrow> (string \<times> string) list" where
  \<comment> \<open>the group \<^verbatim>\<open>(\d{1,3})\<close>: its alternatives, longest first, each with the text
      it captures and the rest of the input\<close>
  "digits_1_3 s =
     [(take k s, drop k s). k \<leftarrow> [3, 2, 1], k \<le> length s, list_all isDigit (take k s)]"

definition lit :: "char \<Rightarrow> string \<Rightarrow> string list" where
  \<comment> \<open>one literal character: the rest of the input after it\<close>
  "lit c s = (case s of [] \<Rightarrow> [] | x # r \<Rightarrow> if x = c then [r] else [])"

definition ipRegex_exec :: "string \<Rightarrow> string list list" where
  \<comment> \<open>\<^verbatim>\<open>/^(\d{1,3})\.(\d{1,3})\.(\d{1,3})\.(\d{1,3})$/\<close>: the captures of every way
      the whole input matches, in the order a backtracking matcher tries them\<close>
  "ipRegex_exec ip =
     [[a, b, c, d].
        (a, r1) \<leftarrow> digits_1_3 ip, s1 \<leftarrow> lit CHR ''.'' r1,
        (b, r2) \<leftarrow> digits_1_3 s1, s2 \<leftarrow> lit CHR ''.'' r2,
        (c, r3) \<leftarrow> digits_1_3 s2, s3 \<leftarrow> lit CHR ''.'' r3,
        (d, r4) \<leftarrow> digits_1_3 s3, r4 = []]"

definition validateIP :: "string \<Rightarrow> bool" where
  "validateIP ip =
     (case ipRegex_exec ip of
        [] \<Rightarrow> False
      | match # _ \<Rightarrow>
          let octets = map toNumber match
          in list_all (\<lambda>octet. num_le (Some 0) octet \<and> num_le octet (Some 255)) octets)"

subsection \<open>ipToBinary and binaryToIp\<close>

definition ipToBinary :: "string \<Rightarrow> error + string" where
  "ipToBinary ip =
     (if \<not> validateIP ip then Inl InvalidAddress
      else Inr (joinWith ''.''
             (map (\<lambda>octet. padStart 8 CHR ''0'' (toStringRadix (parseInt octet 10) 2))
                (splitOn CHR ''.'' ip))))"

definition bits8 :: "string \<Rightarrow> string list" where
  \<comment> \<open>\<^verbatim>\<open>[01]{8}\<close>\<close>
  "bits8 s = (if 8 \<le> length s \<and> list_all isBin (take 8 s) then [drop 8 s] else [])"

definition optional :: "(string \<Rightarrow> string list) \<Rightarrow> string \<Rightarrow> string list" where
  \<comment> \<open>a greedy \<^verbatim>\<open>?\<close>: first with the item, then without it\<close>
  "optional m s = m s @ [s]"

definition binaryGroup :: "string \<Rightarrow> string list" where
  \<comment> \<open>\<^verbatim>\<open>([01]{8}\.?)\<close>\<close>
  "binaryGroup s = concat (map (optional (lit CHR ''.'')) (bits8 s))"

fun repeatN :: "nat \<Rightarrow> (string \<Rightarrow> string list) \<Rightarrow> string \<Rightarrow> string list" where
  \<comment> \<open>the item exactly n times\<close>
  "repeatN 0 m s = [s]"
| "repeatN (Suc n) m s = concat (map (repeatN n m) (m s))"

definition binaryRegex_test :: "string \<Rightarrow> bool" where
  \<comment> \<open>\<^verbatim>\<open>/^([01]{8}\.?){4}$/.test(binary)\<close>: some way of matching ends at the end of the input\<close>
  "binaryRegex_test binary = ([] \<in> set (repeatN 4 binaryGroup binary))"

definition binaryToIp :: "string \<Rightarrow> error + string" where
  "binaryToIp binary =
     (if \<not> binaryRegex_test binary then Inl InvalidFormat
      else Inr (joinWith ''.''
             (map (\<lambda>octet. toString (parseInt octet 2)) (splitOn CHR ''.'' binary))))"

subsection \<open>validateSubnetMask\<close>

definition hasOnlyBinary :: "string \<Rightarrow> bool" where
  \<comment> \<open>\<^verbatim>\<open>/^[01]+$/.test(binary)\<close>\<close>
  "hasOnlyBinary binary = (binary \<noteq> [] \<and> list_all isBin binary)"

definition hasLeadingOnes :: "string \<Rightarrow> bool" where
  \<comment> \<open>\<^verbatim>\<open>/^1*0*$/.test(binary)\<close>: the greedy run of ones, the greedy run of zeros, the end.
      A shorter run of ones leaves a one in front of \<^verbatim>\<open>0*\<close>, so backtracking adds no match.\<close>
  "hasLeadingOnes binary =
     (dropWhile (\<lambda>c. c = CHR ''0'') (dropWhile (\<lambda>c. c = CHR ''1'') binary) = [])"

definition validateSubnetMask :: "string \<Rightarrow> bool" where
  "validateSubnetMask maskStr =
     (if startsWith maskStr CHR ''/'' then
        (let cidr = parseInt (substring maskStr 1) 10
         in cidr \<noteq> None \<and> num_le (Some 0) cidr \<and> num_le cidr (Some 32))
      else if validateIP maskStr then
        (case ipToBinary maskStr of
           Inl e \<Rightarrow> False
         | Inr b \<Rightarrow>
             let binary = removeDots b
             in hasOnlyBinary binary \<and> hasLeadingOnes binary \<and> length binary = 32)
      else False)"

subsection \<open>cidrToMask, maskToCidr, getWildcardMask\<close>

definition cidrToMask :: "number \<Rightarrow> error + string" where
  \<comment> \<open>the argument is an integer or NaN, as \<^verbatim>\<open>parseInt\<close> gives it\<close>
  "cidrToMask cidr =
     (case cidr of
        None \<Rightarrow> Inl OutOfRange
      | Some n \<Rightarrow>
          if n < 0 \<or> n > 32 then Inl OutOfRange
          else Inr (joinWith ''.''
                 (map (\<lambda>i. let bits = min 8 (max 0 (n - i * 8))
                           in toString (Some (if bits = 0 then 0 else 256 - 2 ^ nat (8 - bits))))
                    [0, 1, 2, 3])))"

definition maskToCidr :: "string \<Rightarrow> error + int" where
  "maskToCidr maskStr =
     (if \<not> validateSubnetMask maskStr then Inl InvalidMask
      else case ipToBinary maskStr of
             Inl e \<Rightarrow> Inl e
           | Inr b \<Rightarrow> Inr (int (length (filter (\<lambda>c. c = CHR ''1'') (removeDots b)))))"

definition getWildcardMask :: "string \<Rightarrow> error + string" where
  "getWildcardMask maskStr =
     (if \<not> validateSubnetMask maskStr then Inl InvalidMask
      else Inr (joinWith ''.''
             (map (\<lambda>octet. toString (num_sub (Some 255) (parseInt octet 10)))
                (splitOn CHR ''.'' maskStr))))"

subsection \<open>bitwiseAnd and bitwiseOr\<close>

definition nthOrUndefined :: "number list \<Rightarrow> nat \<Rightarrow> number" where
  \<comment> \<open>an index past the end reads \<^verbatim>\<open>undefined\<close>, which \<^verbatim>\<open>&\<close> and \<^verbatim>\<open>|\<close> convert like NaN\<close>
  "nthOrUndefined xs i = (if i < length xs then xs ! i else None)"

definition bitwiseAnd :: "string \<Rightarrow> string \<Rightarrow> string" where
  "bitwiseAnd ip1 ip2 =
     (let octets1 = map toNumber (splitOn CHR ''.'' ip1);
          octets2 = map toNumber (splitOn CHR ''.'' ip2)
      in joinWith ''.''
           (map (\<lambda>(index, octet).
                   toString (Some ((toInt32 octet) AND (toInt32 (nthOrUndefined octets2 index)))))
              (enumerate 0 octets1)))"

definition bitwiseOr :: "string \<Rightarrow> string \<Rightarrow> error + string" where
  "bitwiseOr ip1 ip2 =
     (if \<not> validateIP ip1 \<or> \<not> validateIP ip2 then Inl InvalidAddress
      else
        let octets1 = map toNumber (splitOn CHR ''.'' ip1);
            octets2 = map toNumber (splitOn CHR ''.'' ip2)
        in Inr (joinWith ''.''
                 (map (\<lambda>(index, octet).
                         toString (Some ((toInt32 octet) OR (toInt32 (nthOrUndefined octets2 index)))))
                    (enumerate 0 octets1))))"

subsection \<open>incrementIp and decrementIp\<close>

fun incrementLoop :: "nat \<Rightarrow> number list \<Rightarrow> error + string" where
  \<comment> \<open>the loop \<^verbatim>\<open>for (let i = 3; i >= 0; i--)\<close>, entered at index i\<close>
  "incrementLoop 0 octets =
     (if num_lt (octets ! 0) (Some 255)
      then Inr (joinWith ''.'' (map toString (octets[0 := num_add (octets ! 0) (Some 1)])))
      else Inl AddressSpaceExhausted)"
| "incrementLoop (Suc i) octets =
     (if num_lt (octets ! Suc i) (Some 255)
      then Inr (joinWith ''.'' (map toString (octets[Suc i := num_add (octets ! Suc i) (Some 1)])))
      else incrementLoop i (octets[Suc i := Some 0]))"

definition incrementIp :: "string \<Rightarrow> error + string" where
  \<comment> \<open>a validated address has four octets, so the indices 3 to 0 are in range\<close>
  "incrementIp ip =
     (if \<not> validateIP ip then Inl InvalidAddress
      else incrementLoop 3 (map toNumber (splitOn CHR ''.'' ip)))"

fun decrementLoop :: "nat \<Rightarrow> number list \<Rightarrow> error + string" where
  \<comment> \<open>the loop of \<^verbatim>\<open>decrementIp\<close>, entered at index i; after index 0 the octets are joined\<close>
  "decrementLoop 0 octets =
     (if num_lt (Some 0) (octets ! 0)
      then Inr (joinWith ''.'' (map toString (octets[0 := num_sub (octets ! 0) (Some 1)])))
      else Inr (joinWith ''.'' (map toString (octets[0 := Some 255]))))"
| "decrementLoop (Suc i) octets =
     (if num_lt (Some 0) (octets ! Suc i)
      then Inr (joinWith ''.'' (map toString (octets[Suc i := num_sub (octets ! Suc i) (Some 1)])))
      else decrementLoop i (octets[Suc i := Some 255]))"

definition decrementIp :: "string \<Rightarrow> error + string" where
  "decrementIp ip =
     (if \<not> validateIP ip then Inl InvalidAddress
      else
        let octets = map toNumber (splitOn CHR ''.'' ip)
        in if list_all (\<lambda>octet. octet = Some 0) octets then Inl AddressSpaceExhausted
           else decrementLoop 3 octets)"

subsection \<open>calculateSubnet\<close>

definition bindE :: "error + 'a \<Rightarrow> ('a \<Rightarrow> error + 'b) \<Rightarrow> error + 'b" where
  \<comment> \<open>a statement that may throw, followed by the rest of the function\<close>
  "bindE m f = (case m of Inl e \<Rightarrow> Inl e | Inr x \<Rightarrow> f x)"

definition resolveMask :: "string \<Rightarrow> error + string" where
  \<comment> \<open>lines 302 to 313: a CIDR input is converted to a dotted mask\<close>
  "resolveMask maskOrCidr =
     (if startsWith maskOrCidr CHR ''/'' then
        (let cidr = parseInt (substring maskOrCidr 1) 10
         in if cidr = None \<or> num_lt cidr (Some 0) \<or> num_lt (Some 32) cidr then Inl InvalidCidr
            else cidrToMask cidr)
      else Inr maskOrCidr)"

definition calculateSubnet :: "string \<Rightarrow> string \<Rightarrow> error + SubnetInfo" where
  \<comment> \<open>The first \<^verbatim>\<open>bitwiseAnd\<close> (line 316) cannot throw and has no effect, so it is
      written where its value is first used, after \<^verbatim>\<open>getWildcardMask\<close> (line 319).\<close>
  "calculateSubnet ipAddress maskOrCidr =
     (if \<not> validateIP ipAddress then Inl InvalidAddress
      else
        bindE (resolveMask maskOrCidr) (\<lambda>maskStr.
        bindE (getWildcardMask maskStr) (\<lambda>wildcardMask0.
        bindE (bitwiseOr (bitwiseAnd ipAddress maskStr) wildcardMask0) (\<lambda>broadcastAddress0.
        if \<not> validateSubnetMask maskStr then Inl InvalidMask
        else
          bindE (ipToBinary ipAddress) (\<lambda>binIP.
          bindE (ipToBinary maskStr) (\<lambda>binMask.
          let network = bitwiseAnd ipAddress maskStr in
          bindE (getWildcardMask maskStr) (\<lambda>wildcard.
          bindE (bitwiseOr network wildcard) (\<lambda>broadcast.
          bindE (incrementIp network) (\<lambda>firstHost0.
          bindE (decrementIp broadcast) (\<lambda>lastHost0.
          bindE (maskToCidr maskStr) (\<lambda>cidr.
          let first1 = (if cidr \<ge> 31 then network else firstHost0);
              last1 = (if cidr \<ge> 31 then broadcast else lastHost0);
              total = 2 ^ nat (32 - cidr);
              usable = (if cidr \<ge> 31 then total else max 0 (total - 2))
          in Inr \<lparr> networkAddress = network,
                   broadcastAddress = broadcast,
                   firstHost = first1,
                   lastHost = last1,
                   totalHosts = total,
                   usableHosts = usable,
                   subnetMask = maskStr,
                   wildcardMask = wildcard,
                   binaryIP = binIP,
                   binaryMask = binMask \<rparr>)))))))))))"

section \<open>Notions of the specification\<close>

definition digitGroup :: "string \<Rightarrow> bool" where
  \<comment> \<open>a group of 1 to 3 decimal digits\<close>
  "digitGroup g = (1 \<le> length g \<and> length g \<le> 3 \<and> list_all isDigit g)"

definition octetGroup :: "string \<Rightarrow> bool" where
  \<comment> \<open>a group of 1 to 3 decimal digits whose value is at most 255\<close>
  "octetGroup g = (digitGroup g \<and> digitsValue 10 0 g \<le> 255)"

fun bitsOf :: "nat \<Rightarrow> nat \<Rightarrow> string" where
  "bitsOf 0 n = []"
| "bitsOf (Suc k) n = bitsOf k (n div 2) @ [if odd n then CHR ''1'' else CHR ''0'']"

definition ipValue :: "string \<Rightarrow> nat" where
  \<comment> \<open>the 32-bit address a dotted string denotes\<close>
  "ipValue s = foldl (\<lambda>acc g. acc * 256 + digitsValue 10 0 g) 0 (splitOn CHR ''.'' s)"

definition ipOfValue :: "nat \<Rightarrow> string" where
  \<comment> \<open>the dotted string of a 32-bit address, no octet with a leading zero\<close>
  "ipOfValue n =
     joinWith ''.'' (map (natToRadix 10)
       [n div 16777216 mod 256, n div 65536 mod 256, n div 256 mod 256, n mod 256])"

definition canonicalIp :: "string \<Rightarrow> string" where
  "canonicalIp s = ipOfValue (ipValue s)"

definition binaryExpansion :: "string \<Rightarrow> string" where
  \<comment> \<open>the 32 bits of the address, most significant first\<close>
  "binaryExpansion s = bitsOf 32 (ipValue s)"

definition plainGroup :: "string \<Rightarrow> bool" where
  \<comment> \<open>a group with no leading zero: the digit 0 alone, or a first character other than 0\<close>
  "plainGroup g = (g = ''0'' \<or> (g \<noteq> [] \<and> hd g \<noteq> CHR ''0''))"

definition noLeadingZeros :: "string \<Rightarrow> bool" where
  "noLeadingZeros s = list_all plainGroup (splitOn CHR ''.'' s)"

definition prefixOnes :: "nat \<Rightarrow> string \<Rightarrow> bool" where
  \<comment> \<open>L one-bits first, then only zero-bits\<close>
  "prefixOnes L bits = (L \<le> length bits \<and> bits = replicate L CHR ''1'' @ replicate (length bits - L) CHR ''0'')"

definition integerNumeral :: "string \<Rightarrow> bool" where
  \<comment> \<open>an integer numeral: an optional sign, then one or more decimal digits, and nothing
      else\<close>
  "integerNumeral t =
     (let u = (if startsWith t CHR ''+'' \<or> startsWith t CHR ''-'' then tl t else t)
      in u \<noteq> [] \<and> list_all isDigit u)"

definition readsInteger :: "string \<Rightarrow> int \<Rightarrow> bool" where
  \<comment> \<open>the integer a lenient reader takes from the front of a string: white space, one optional
      sign, a run of decimal digits, and then the end or a character that is no digit\<close>
  "readsInteger t n =
     (\<exists>ws sign ds rest. t = ws @ sign @ ds @ rest \<and> list_all isWhiteSpace ws
        \<and> (sign = [] \<or> sign = ''+'' \<or> sign = ''-'') \<and> ds \<noteq> [] \<and> list_all isDigit ds
        \<and> (rest = [] \<or> \<not> isDigit (hd rest))
        \<and> n = (if sign = ''-'' then - int (digitsValue 10 0 ds) else int (digitsValue 10 0 ds)))"

definition octetsOf :: "string \<Rightarrow> nat list" where
  \<comment> \<open>the values of the dot-separated groups\<close>
  "octetsOf s = map (digitsValue 10 0) (splitOn CHR ''.'' s)"

section \<open>Splitting and joining\<close>


lemma splitOn_nonempty: "splitOn d s \<noteq> []"
  by (induction s) (auto split: list.splits)

lemma splitOn_no_sep: "d \<notin> set g \<Longrightarrow> splitOn d g = [g]"
  by (induction g) auto

lemma splitOn_append_sep: "d \<notin> set g \<Longrightarrow> splitOn d (g @ d # rest) = g # splitOn d rest"
  by (induction g) auto

lemma joinWith_splitOn: "joinWith [d] (splitOn d s) = s"
proof (induction s)
  case Nil
  then show ?case by simp
next
  case (Cons c cs)
  obtain g gs where sp: "splitOn d cs = g # gs"
    using splitOn_nonempty [of d cs] by (cases "splitOn d cs") auto
  show ?case
  proof (cases "c = d")
    case True
    with Cons sp show ?thesis by simp
  next
    case False
    with Cons sp show ?thesis by (cases gs) auto
  qed
qed

lemma splitOn_pieces: "g \<in> set (splitOn d s) \<Longrightarrow> d \<notin> set g"
proof (induction s arbitrary: g)
  case Nil
  then show ?case by simp
next
  case (Cons c cs)
  obtain h hs where sp: "splitOn d cs = h # hs"
    using splitOn_nonempty [of d cs] by (cases "splitOn d cs") auto
  from Cons sp show ?case by (auto split: if_splits)
qed

lemma splitOn_joinWith:
  "gs \<noteq> [] \<Longrightarrow> \<forall>g\<in>set gs. d \<notin> set g \<Longrightarrow> splitOn d (joinWith [d] gs) = gs"
proof (induction gs)
  case Nil
  then show ?case by simp
next
  case (Cons x xs)
  show ?case
  proof (cases xs)
    case Nil
    with Cons show ?thesis by (simp add: splitOn_no_sep)
  next
    case (Cons y ys)
    with Cons.IH Cons.prems show ?thesis by (simp add: splitOn_append_sep)
  qed
qed

section \<open>Digits and numerals\<close>

lemma isDigit_digitChar: "n < 10 \<Longrightarrow> isDigit (digitChar n)"
  by (simp add: isDigit_def digitChar_def)

lemma digitVal_digitChar: "n < 10 \<Longrightarrow> digitVal (digitChar n) = n"
  by (simp add: digitVal_def digitChar_def)

lemma digitChar_digitVal: "isDigit c \<Longrightarrow> digitChar (digitVal c) = c"
  by (simp add: digitVal_def digitChar_def isDigit_def)

lemma digitVal_less: "isDigit c \<Longrightarrow> digitVal c < 10"
  by (auto simp add: digitVal_def isDigit_def)

lemma isDigit_not_dot: "isDigit c \<Longrightarrow> c \<noteq> CHR ''.''"
  by (auto simp add: isDigit_def)

lemma isBin_isDigit: "isBin c \<Longrightarrow> isDigit c"
  by (auto simp add: isDigit_def isBin_def)

lemma digitsValue_append:
  "digitsValue r acc (xs @ ys) = digitsValue r (digitsValue r acc xs) ys"
  by (induction xs arbitrary: acc) auto

lemma digitsValue_natToRadix:
  "2 \<le> r \<Longrightarrow> r \<le> 10 \<Longrightarrow> digitsValue r 0 (natToRadix r n) = n"
proof (induction r n rule: natToRadix.induct)
  case (1 r n)
  show ?case
  proof (cases "n < r")
    case True
    with 1 show ?thesis by (simp add: natToRadix.simps [of r n] digitVal_digitChar)
  next
    case False
    from 1 have "n mod r < r" by simp
    with 1 have "n mod r < 10" by linarith
    with False 1 show ?thesis
      by (simp add: natToRadix.simps [of r n] digitsValue_append digitVal_digitChar)
  qed
qed


lemma digitChar_table:
  "digitChar 0 = CHR ''0''" "digitChar 1 = CHR ''1''" "digitChar 2 = CHR ''2''"
  "digitChar 3 = CHR ''3''" "digitChar 4 = CHR ''4''" "digitChar 5 = CHR ''5''"
  "digitChar 6 = CHR ''6''" "digitChar 7 = CHR ''7''" "digitChar 8 = CHR ''8''"
  "digitChar 9 = CHR ''9''" "digitChar (Suc 0) = CHR ''1''"
  by (simp_all add: digitChar_def char_of_def bit_0)

lemma replicate_numeral: "replicate (numeral k) x = x # replicate (pred_numeral k) x"
  by (simp add: numeral_eq_Suc)

text \<open>The equations that evaluate the functions on a given string or number.\<close>

lemmas ev_string = isDigit_def isBin_def digitVal_def digitChar_table startsWith_def
  substring_def padStart_def removeDots_def isWhiteSpace_def isRadixDigit_def replicate_numeral

lemmas ev_num = toStringRadix_def toString_def parseInt_def toNumber_def toInt32_def
  num_le_def num_lt_def num_add_def num_sub_def natToRadix.simps

section \<open>The address pattern\<close>

lemma set_digits_1_3:
  "(g, r) \<in> set (digits_1_3 s) \<longleftrightarrow> s = g @ r \<and> digitGroup g"
proof
  assume "(g, r) \<in> set (digits_1_3 s)"
  then show "s = g @ r \<and> digitGroup g"
    by (auto simp add: digits_1_3_def digitGroup_def split: if_splits)
next
  assume a: "s = g @ r \<and> digitGroup g"
  then have "length g = 1 \<or> length g = 2 \<or> length g = 3"
    by (auto simp add: digitGroup_def)
  with a show "(g, r) \<in> set (digits_1_3 s)"
    by (auto simp add: digits_1_3_def digitGroup_def)
qed

lemma set_lit: "r' \<in> set (lit c r) \<longleftrightarrow> r = c # r'"
  by (auto simp add: lit_def split: list.splits)

lemma set_ipRegex_exec:
  "m \<in> set (ipRegex_exec s) \<longleftrightarrow>
     (\<exists>a b c d. m = [a, b, c, d] \<and> s = a @ CHR ''.'' # b @ CHR ''.'' # c @ CHR ''.'' # d
        \<and> digitGroup a \<and> digitGroup b \<and> digitGroup c \<and> digitGroup d)"
  unfolding ipRegex_exec_def
  by (auto simp add: set_digits_1_3 set_lit)


lemma digitGroup_no_dot: "digitGroup g \<Longrightarrow> CHR ''.'' \<notin> set g"
  by (auto simp add: digitGroup_def list_all_iff dest: isDigit_not_dot)

lemma splitOn_four:
  assumes "CHR ''.'' \<notin> set a" "CHR ''.'' \<notin> set b" "CHR ''.'' \<notin> set c" "CHR ''.'' \<notin> set d"
  shows "splitOn CHR ''.'' (a @ CHR ''.'' # b @ CHR ''.'' # c @ CHR ''.'' # d) = [a, b, c, d]"
  using assms by (simp add: splitOn_append_sep splitOn_no_sep)

lemma ipRegex_exec_split:
  "m \<in> set (ipRegex_exec s) \<Longrightarrow> splitOn CHR ''.'' s = m"
  by (auto simp add: set_ipRegex_exec splitOn_four digitGroup_no_dot)

lemma four_groups:
  assumes "length gs = 4"
  obtains a b c d where "gs = [a, b, c, d]"
proof -
  from assms obtain a r1 where "gs = a # r1" "length r1 = 3" by (cases gs) auto
  moreover then obtain b r2 where "r1 = b # r2" "length r2 = 2" by (cases r1) auto
  moreover then obtain c r3 where "r2 = c # r3" "length r3 = 1" by (cases r2) auto
  moreover then obtain d where "r3 = [d]" by (cases r3) auto
  ultimately show ?thesis using that by simp
qed

lemma ipRegex_exec_iff:
  "ipRegex_exec s \<noteq> [] \<longleftrightarrow>
     length (splitOn CHR ''.'' s) = 4 \<and> list_all digitGroup (splitOn CHR ''.'' s)"
proof
  assume "ipRegex_exec s \<noteq> []"
  then obtain m where m: "m \<in> set (ipRegex_exec s)" by (cases "ipRegex_exec s") auto
  then have "splitOn CHR ''.'' s = m" by (rule ipRegex_exec_split)
  with m show "length (splitOn CHR ''.'' s) = 4 \<and> list_all digitGroup (splitOn CHR ''.'' s)"
    by (auto simp add: set_ipRegex_exec)
next
  assume a: "length (splitOn CHR ''.'' s) = 4 \<and> list_all digitGroup (splitOn CHR ''.'' s)"
  then obtain a b c d where sp: "splitOn CHR ''.'' s = [a, b, c, d]"
    by (auto elim: four_groups)
  have "joinWith ''.'' (splitOn CHR ''.'' s) = s" by (rule joinWith_splitOn)
  with sp have "s = a @ CHR ''.'' # b @ CHR ''.'' # c @ CHR ''.'' # d" by simp
  with a sp have "[a, b, c, d] \<in> set (ipRegex_exec s)"
    by (auto simp add: set_ipRegex_exec)
  then show "ipRegex_exec s \<noteq> []" by auto
qed

lemma ipRegex_exec_hd:
  "ipRegex_exec s \<noteq> [] \<Longrightarrow> hd (ipRegex_exec s) = splitOn CHR ''.'' s"
  using ipRegex_exec_split [of "hd (ipRegex_exec s)" s] by simp

lemma toNumber_digits: "list_all isDigit g \<Longrightarrow> toNumber g = Some (int (digitsValue 10 0 g))"
  by (simp add: toNumber_def)

lemma validateIP_iff:
  "validateIP s \<longleftrightarrow>
     length (splitOn CHR ''.'' s) = 4 \<and> list_all octetGroup (splitOn CHR ''.'' s)"
proof (cases "ipRegex_exec s")
  case Nil
  then have "\<not> validateIP s" by (simp add: validateIP_def)
  moreover from Nil have "\<not> (length (splitOn CHR ''.'' s) = 4 \<and> list_all digitGroup (splitOn CHR ''.'' s))"
    using ipRegex_exec_iff [of s] by simp
  ultimately show ?thesis by (auto simp add: octetGroup_def list_all_iff)
next
  case (Cons m ms)
  then have ne: "ipRegex_exec s \<noteq> []" by simp
  with Cons have m: "m = splitOn CHR ''.'' s" using ipRegex_exec_hd [of s] by simp
  from ne have dg: "length (splitOn CHR ''.'' s) = 4" "list_all digitGroup (splitOn CHR ''.'' s)"
    using ipRegex_exec_iff [of s] by simp_all
  have "validateIP s \<longleftrightarrow> list_all (\<lambda>g. num_le (Some 0) (toNumber g) \<and> num_le (toNumber g) (Some 255)) m"
    using Cons by (simp add: validateIP_def list_all_iff)
  also have "\<dots> \<longleftrightarrow> list_all octetGroup m"
    using dg m by (auto simp add: list_all_iff octetGroup_def digitGroup_def toNumber_digits num_le_def)
  finally show ?thesis using dg m by simp
qed

lemma validateIP_cases:
  assumes "validateIP s"
  obtains a b c d where "splitOn CHR ''.'' s = [a, b, c, d]"
    and "s = a @ CHR ''.'' # b @ CHR ''.'' # c @ CHR ''.'' # d"
    and "octetGroup a" "octetGroup b" "octetGroup c" "octetGroup d"
proof -
  from assms have l: "length (splitOn CHR ''.'' s) = 4" and o: "list_all octetGroup (splitOn CHR ''.'' s)"
    by (simp_all add: validateIP_iff)
  from l obtain a b c d where sp: "splitOn CHR ''.'' s = [a, b, c, d]" by (auto elim: four_groups)
  have "joinWith ''.'' (splitOn CHR ''.'' s) = s" by (rule joinWith_splitOn)
  with sp have "s = a @ CHR ''.'' # b @ CHR ''.'' # c @ CHR ''.'' # d" by simp
  with sp o show ?thesis using that by simp
qed


lemmas ev_ip = validateIP_iff octetGroup_def digitGroup_def

section \<open>Binary strings and the canonical form\<close>

lemma natToRadix_nonempty: "natToRadix r n \<noteq> []"
  by (subst natToRadix.simps) simp

lemma isRadixDigit_digitChar: "n < r \<Longrightarrow> r \<le> 10 \<Longrightarrow> isRadixDigit r (digitChar n)"
  by (simp add: isRadixDigit_def digitChar_def)

lemma natToRadix_digits:
  "2 \<le> r \<Longrightarrow> r \<le> 10 \<Longrightarrow> list_all (isRadixDigit r) (natToRadix r n)"
proof (induction r n rule: natToRadix.induct)
  case (1 r n)
  show ?case
  proof (cases "n < r")
    case True
    with 1 show ?thesis by (simp add: natToRadix.simps [of r n] isRadixDigit_digitChar)
  next
    case False
    from 1 have "n mod r < r" by simp
    with False 1 show ?thesis
      by (simp add: natToRadix.simps [of r n] isRadixDigit_digitChar)
  qed
qed

lemma isRadixDigit_10: "isRadixDigit 10 c = isDigit c"
  by (auto simp add: isRadixDigit_def isDigit_def)

lemma of_char_48: "(of_char c :: nat) = 48 \<longleftrightarrow> c = CHR ''0''"
  using of_char_eq_iff [of c "CHR ''0''", where ?'a = nat] by simp

lemma of_char_49: "(of_char c :: nat) = 49 \<longleftrightarrow> c = CHR ''1''"
  using of_char_eq_iff [of c "CHR ''1''", where ?'a = nat] by simp

lemma of_char_46: "(of_char c :: nat) = 46 \<longleftrightarrow> c = CHR ''.''"
  using of_char_eq_iff [of c "CHR ''.''", where ?'a = nat] by simp

lemma isRadixDigit_2: "isRadixDigit 2 c = isBin c"
proof -
  have "(48 \<le> (of_char c :: nat) \<and> (of_char c :: nat) < 50) \<longleftrightarrow>
        ((of_char c :: nat) = 48 \<or> (of_char c :: nat) = 49)" by arith
  then show ?thesis by (simp add: isRadixDigit_def isBin_def of_char_48 of_char_49)
qed

lemma natToRadix_isDigit: "list_all isDigit (natToRadix 10 n)"
  using natToRadix_digits [of 10 n] by (simp add: isRadixDigit_10 [abs_def])

lemma natToRadix_isBin: "list_all isBin (natToRadix 2 n)"
  using natToRadix_digits [of 2 n] by (simp add: isRadixDigit_2 [abs_def])

lemma natToRadix_length:
  "2 \<le> r \<Longrightarrow> 1 \<le> k \<Longrightarrow> n < r ^ k \<Longrightarrow> length (natToRadix r n) \<le> k"
proof (induction r n arbitrary: k rule: natToRadix.induct)
  case (1 r n)
  show ?case
  proof (cases "n < r")
    case True
    with 1 show ?thesis by (simp add: natToRadix.simps [of r n])
  next
    case False
    with 1 have "k \<noteq> 1" by auto
    with 1 obtain j where k: "k = Suc j" "1 \<le> j" by (cases k) auto
    with 1 have "n div r < r ^ j"
      by (simp add: less_mult_imp_div_less mult.commute)
    with 1 False k have "length (natToRadix r (n div r)) \<le> j" by simp
    with False 1 k show ?thesis by (simp add: natToRadix.simps [of r n])
  qed
qed

lemma bitsOf_length: "length (bitsOf k n) = k"
  by (induction k arbitrary: n) auto

lemma bitsOf_isBin: "list_all isBin (bitsOf k n)"
  by (induction k arbitrary: n) (auto simp add: isBin_def)

lemma bitsOf_zero: "bitsOf k 0 = replicate k CHR ''0''"
  by (induction k) (auto simp add: replicate_append_same)

lemma digitChar_bit: "n < 2 \<Longrightarrow> digitChar n = (if odd n then CHR ''1'' else CHR ''0'')"
  by (cases n) (auto simp add: digitChar_table)

lemma padStart_bitsOf:
  "1 \<le> k \<Longrightarrow> n < 2 ^ k \<Longrightarrow> padStart k CHR ''0'' (natToRadix 2 n) = bitsOf k n"
proof (induction k arbitrary: n)
  case 0
  then show ?case by simp
next
  case (Suc k)
  show ?case
  proof (cases "n < 2")
    case True
    then have "n div 2 = 0" by simp
    with True show ?thesis
      by (simp add: natToRadix.simps [of 2 n] padStart_def digitChar_bit bitsOf_zero)
  next
    case False
    with Suc.prems have k: "1 \<le> k" by (cases k) auto
    from Suc.prems have d: "n div 2 < 2 ^ k" by simp
    with k have ih: "padStart k CHR ''0'' (natToRadix 2 (n div 2)) = bitsOf k (n div 2)"
      by (rule Suc.IH)
    from d k have "length (natToRadix 2 (n div 2)) \<le> k" by (simp add: natToRadix_length)
    with ih False show ?thesis
      by (simp add: natToRadix.simps [of 2 n] padStart_def digitChar_bit Suc_diff_le)
  qed
qed

lemma digitsValue_bitsOf: "digitsValue 2 0 (bitsOf k n) = n mod 2 ^ k"
proof (induction k arbitrary: n)
  case 0
  then show ?case by simp
next
  case (Suc k)
  have "n mod (2 * 2 ^ k) = 2 * (n div 2 mod 2 ^ k) + n mod 2"
    by (simp add: mod_mult2_eq)
  with Suc show ?case
    by (auto simp add: digitsValue_append digitVal_def odd_iff_mod_2_eq_one)
qed

lemma bitsOf_append:
  "y < 2 ^ k \<Longrightarrow> bitsOf (j + k) (x * 2 ^ k + y) = bitsOf j x @ bitsOf k y"
proof (induction k arbitrary: y)
  case 0
  then show ?case by simp
next
  case (Suc k)
  from Suc.prems have "y div 2 < 2 ^ k" by simp
  then have "bitsOf (j + k) (x * 2 ^ k + y div 2) = bitsOf j x @ bitsOf k (y div 2)"
    by (rule Suc.IH)
  moreover have "(x * 2 ^ Suc k + y) div 2 = x * 2 ^ k + y div 2" by simp
  moreover have "odd (x * 2 ^ Suc k + y) = odd y" by simp
  ultimately show ?case by simp
qed

lemma radixDigit_plain:
  assumes "isRadixDigit r c" "r \<le> 10"
  shows "\<not> isWhiteSpace c" "c \<noteq> CHR ''+''" "c \<noteq> CHR ''-''"
  using assms by (auto simp add: isRadixDigit_def isWhiteSpace_def)

lemma parseInt_digits:
  assumes "g \<noteq> []" "list_all (isRadixDigit r) g" "r \<le> 10"
  shows "parseInt g r = Some (int (digitsValue r 0 g))"
proof -
  from assms obtain c cs where g: "g = c # cs" by (cases g) auto
  with assms have c: "isRadixDigit r c" by simp
  from c assms(3) have "\<not> isWhiteSpace c" "c \<noteq> CHR ''+''" "c \<noteq> CHR ''-''"
    by (rule radixDigit_plain)+
  moreover from assms(2) have "takeWhile (isRadixDigit r) g = g"
    by (simp add: list_all_iff)
  ultimately show ?thesis using g assms(1)
    by (simp add: parseInt_def startsWith_def Let_def)
qed

lemma parseInt_decimal:
  "g \<noteq> [] \<Longrightarrow> list_all isDigit g \<Longrightarrow> parseInt g 10 = Some (int (digitsValue 10 0 g))"
  by (rule parseInt_digits) (simp_all add: isRadixDigit_10 [abs_def])

lemma parseInt_binary:
  "g \<noteq> [] \<Longrightarrow> list_all isBin g \<Longrightarrow> parseInt g 2 = Some (int (digitsValue 2 0 g))"
  by (rule parseInt_digits) (simp_all add: isRadixDigit_2 [abs_def])

lemma octetGroup_parseInt:
  "octetGroup g \<Longrightarrow> parseInt g 10 = Some (int (digitsValue 10 0 g))"
  by (rule parseInt_decimal) (auto simp add: octetGroup_def digitGroup_def)

lemma octetGroup_toNumber:
  "octetGroup g \<Longrightarrow> toNumber g = Some (int (digitsValue 10 0 g))"
  by (simp add: octetGroup_def digitGroup_def toNumber_digits)

lemma octet_binary:
  "octetGroup g \<Longrightarrow>
     padStart 8 CHR ''0'' (toStringRadix (parseInt g 10) 2) = bitsOf 8 (digitsValue 10 0 g)"
  by (simp add: octetGroup_parseInt toStringRadix_def padStart_bitsOf octetGroup_def)

lemma ipToBinary_four:
  assumes "validateIP s" "splitOn CHR ''.'' s = [a, b, c, d]"
  shows "ipToBinary s = Inr (bitsOf 8 (digitsValue 10 0 a) @ CHR ''.'' # bitsOf 8 (digitsValue 10 0 b)
            @ CHR ''.'' # bitsOf 8 (digitsValue 10 0 c) @ CHR ''.'' # bitsOf 8 (digitsValue 10 0 d))"
proof -
  from assms have "octetGroup a" "octetGroup b" "octetGroup c" "octetGroup d"
    by (simp_all add: validateIP_iff)
  with assms show ?thesis by (simp add: ipToBinary_def octet_binary)
qed

lemma isBin_not_dot: "isBin c \<Longrightarrow> c \<noteq> CHR ''.''"
  by (auto simp add: isBin_def)

lemma bitsOf_no_dot: "CHR ''.'' \<notin> set (bitsOf k n)"
  using bitsOf_isBin [of k n] by (auto simp add: list_all_iff dest: isBin_not_dot)

lemma bits8_bitsOf: "bits8 (bitsOf 8 v @ r) = [r]"
  by (simp add: bits8_def bitsOf_length bitsOf_isBin)

lemma binaryGroup_dot: "binaryGroup (bitsOf 8 v @ CHR ''.'' # r) = [r, CHR ''.'' # r]"
  by (simp add: binaryGroup_def bits8_bitsOf optional_def lit_def)

lemma binaryGroup_end: "binaryGroup (bitsOf 8 v) = [[]]"
  using bits8_bitsOf [of v "[]"] by (simp add: binaryGroup_def optional_def lit_def)

lemma binaryRegex_test_four:
  "binaryRegex_test (bitsOf 8 a @ CHR ''.'' # bitsOf 8 b @ CHR ''.'' # bitsOf 8 c @ CHR ''.'' # bitsOf 8 d)"
proof -
  have four: "(4::nat) = Suc (Suc (Suc (Suc 0)))" by simp
  show ?thesis
    unfolding binaryRegex_test_def four
    by (simp add: binaryGroup_dot binaryGroup_end)
qed

lemma parseInt_bitsOf: "v < 256 \<Longrightarrow> parseInt (bitsOf 8 v) 2 = Some (int v)"
proof -
  assume v: "v < 256"
  have "bitsOf 8 v \<noteq> []" using bitsOf_length [of 8 v] by auto
  then have "parseInt (bitsOf 8 v) 2 = Some (int (digitsValue 2 0 (bitsOf 8 v)))"
    by (rule parseInt_binary) (rule bitsOf_isBin)
  with v show ?thesis by (simp add: digitsValue_bitsOf)
qed

lemma toString_nat: "toString (Some (int v)) = natToRadix 10 v"
  by (simp add: toString_def toStringRadix_def)

lemma binaryToIp_four:
  assumes "a < 256" "b < 256" "c < 256" "d < 256"
  shows "binaryToIp (bitsOf 8 a @ CHR ''.'' # bitsOf 8 b @ CHR ''.'' # bitsOf 8 c @ CHR ''.'' # bitsOf 8 d)
         = Inr (natToRadix 10 a @ CHR ''.'' # natToRadix 10 b @ CHR ''.'' # natToRadix 10 c
                  @ CHR ''.'' # natToRadix 10 d)"
  using assms
  by (simp add: binaryToIp_def binaryRegex_test_four splitOn_four bitsOf_no_dot parseInt_bitsOf
      toString_nat)

lemma ipValue_four:
  "splitOn CHR ''.'' s = [a, b, c, d] \<Longrightarrow>
   ipValue s = ((digitsValue 10 0 a * 256 + digitsValue 10 0 b) * 256 + digitsValue 10 0 c) * 256
                 + digitsValue 10 0 d"
  by (simp add: ipValue_def)

lemma octet_div: "d < 256 \<Longrightarrow> (x * 256 + d) div 256 = (x::nat)"
  by simp

lemma octet_mod: "d < 256 \<Longrightarrow> (x * 256 + d) mod 256 = (d::nat)"
  by simp

lemma ipOfValue_octets:
  assumes "a < 256" "b < 256" "c < 256" "d < 256"
  shows "ipOfValue (((a * 256 + b) * 256 + c) * 256 + d)
         = natToRadix 10 a @ CHR ''.'' # natToRadix 10 b @ CHR ''.'' # natToRadix 10 c
             @ CHR ''.'' # natToRadix 10 d"
proof -
  let ?n = "((a * 256 + b) * 256 + c) * 256 + d"
  have n0: "?n mod 256 = d" using assms(4) by (rule octet_mod)
  have d1: "?n div 256 = (a * 256 + b) * 256 + c" using assms(4) by (rule octet_div)
  have n1: "?n div 256 mod 256 = c" unfolding d1 using assms(3) by (rule octet_mod)
  have d2: "?n div 256 div 256 = a * 256 + b" unfolding d1 using assms(3) by (rule octet_div)
  have n2: "?n div 256 div 256 mod 256 = b" unfolding d2 using assms(2) by (rule octet_mod)
  have d3: "?n div 256 div 256 div 256 = a" unfolding d2 using assms(2) by (rule octet_div)
  have n3: "?n div 256 div 256 div 256 mod 256 = a" unfolding d3 using assms(1) by simp
  have "?n div 65536 = ?n div 256 div 256"
    using div_mult2_eq [of ?n 256 256] by simp
  moreover have "?n div 16777216 = ?n div 256 div 256 div 256"
    using div_mult2_eq [of ?n 256 65536] div_mult2_eq [of "?n div 256" 256 256] by simp
  ultimately show ?thesis
    unfolding ipOfValue_def by (simp only: n0 n1 n2 n3 list.map joinWith.simps append_Cons append_Nil)
qed

lemma octetGroup_value: "octetGroup g \<Longrightarrow> digitsValue 10 0 g < 256"
  by (simp add: octetGroup_def)

lemma canonicalIp_four:
  assumes "validateIP s" "splitOn CHR ''.'' s = [a, b, c, d]"
  shows "canonicalIp s = natToRadix 10 (digitsValue 10 0 a) @ CHR ''.'' # natToRadix 10 (digitsValue 10 0 b)
           @ CHR ''.'' # natToRadix 10 (digitsValue 10 0 c) @ CHR ''.'' # natToRadix 10 (digitsValue 10 0 d)"
proof -
  from assms have "octetGroup a" "octetGroup b" "octetGroup c" "octetGroup d"
    by (simp_all add: validateIP_iff)
  then show ?thesis
    unfolding canonicalIp_def ipValue_four [OF assms(2)]
    by (intro ipOfValue_octets octetGroup_value)
qed

lemma binaryToIp_ipToBinary:
  assumes "validateIP s"
  shows "bindE (ipToBinary s) binaryToIp = Inr (canonicalIp s)"
proof -
  from assms obtain a b c d where sp: "splitOn CHR ''.'' s = [a, b, c, d]"
    and o: "octetGroup a" "octetGroup b" "octetGroup c" "octetGroup d"
    by (rule validateIP_cases)
  from o show ?thesis
    by (simp add: bindE_def ipToBinary_four [OF assms sp] canonicalIp_four [OF assms sp]
        binaryToIp_four octetGroup_value)
qed

lemma digitChar_eq_zero: "n < 10 \<Longrightarrow> digitChar n = CHR ''0'' \<longleftrightarrow> n = 0"
  using digitVal_digitChar [of n] digitChar_table(1) digitVal_digitChar [of 0] by auto

lemma natToRadix_hd: "1 \<le> n \<Longrightarrow> hd (natToRadix 10 n) \<noteq> CHR ''0''"
proof (induction "10::nat" n rule: natToRadix.induct)
  case (1 n)
  show ?case
  proof (cases "n < 10")
    case True
    with 1 show ?thesis by (simp add: natToRadix.simps [of 10 n] digitChar_eq_zero)
  next
    case False
    then have "1 \<le> n div 10" by simp
    with 1 False have "hd (natToRadix 10 (n div 10)) \<noteq> CHR ''0''" by simp
    with False show ?thesis
      by (simp add: natToRadix.simps [of 10 n] natToRadix_nonempty)
  qed
qed

lemma natToRadix_plain: "plainGroup (natToRadix 10 n)"
proof (cases "n = 0")
  case True
  then show ?thesis by (simp add: plainGroup_def natToRadix.simps [of 10 0] digitChar_table)
next
  case False
  then show ?thesis by (simp add: plainGroup_def natToRadix_nonempty natToRadix_hd)
qed

lemma natToRadix_digitsValue:
  "list_all isDigit g \<Longrightarrow> plainGroup g \<Longrightarrow> natToRadix 10 (digitsValue 10 0 g) = g"
proof (induction g rule: rev_induct)
  case Nil
  then show ?case by (simp add: plainGroup_def)
next
  case (snoc c xs)
  then have c: "isDigit c" by simp
  show ?case
  proof (cases xs)
    case Nil
    with c show ?thesis
      by (simp add: natToRadix.simps [of 10 "digitVal c"] digitVal_less digitChar_digitVal)
  next
    case (Cons y ys)
    with snoc.prems have p: "plainGroup xs" "list_all isDigit xs"
      by (auto simp add: plainGroup_def)
    then have ih: "natToRadix 10 (digitsValue 10 0 xs) = xs" using snoc.IH by simp
    have "digitsValue 10 0 xs \<noteq> 0"
    proof
      assume "digitsValue 10 0 xs = 0"
      with ih have "xs = ''0''" by (simp add: natToRadix.simps [of 10 0] digitChar_table)
      with Cons snoc.prems show False by (simp add: plainGroup_def)
    qed
    then have v: "1 \<le> digitsValue 10 0 xs" by simp
    let ?n = "digitsValue 10 0 xs * 10 + digitVal c"
    from c have d: "digitVal c < 10" by (rule digitVal_less)
    with v have "\<not> ?n < 10" "?n div 10 = digitsValue 10 0 xs" "?n mod 10 = digitVal c"
      by simp_all
    with ih c show ?thesis
      by (simp add: digitsValue_append natToRadix.simps [of 10 ?n] digitChar_digitVal)
  qed
qed

lemma octetGroup_plain:
  "octetGroup g \<Longrightarrow> natToRadix 10 (digitsValue 10 0 g) = g \<longleftrightarrow> plainGroup g"
  using natToRadix_plain [of "digitsValue 10 0 g"] natToRadix_digitsValue [of g]
  by (auto simp add: octetGroup_def digitGroup_def)

lemma canonicalIp_fixed:
  assumes "validateIP s"
  shows "canonicalIp s = s \<longleftrightarrow> noLeadingZeros s"
proof -
  from assms obtain a b c d where sp: "splitOn CHR ''.'' s = [a, b, c, d]"
    and s: "s = a @ CHR ''.'' # b @ CHR ''.'' # c @ CHR ''.'' # d"
    and o: "octetGroup a" "octetGroup b" "octetGroup c" "octetGroup d"
    by (rule validateIP_cases)
  let ?r = "\<lambda>g. natToRadix 10 (digitsValue 10 0 g)"
  have nd: "CHR ''.'' \<notin> set (?r a)" "CHR ''.'' \<notin> set (?r b)" "CHR ''.'' \<notin> set (?r c)"
    "CHR ''.'' \<notin> set (?r d)"
    using natToRadix_isDigit by (auto simp add: list_all_iff dest: isDigit_not_dot)
  have "canonicalIp s = s \<longleftrightarrow> splitOn CHR ''.'' (canonicalIp s) = splitOn CHR ''.'' s"
    using joinWith_splitOn [of "CHR ''.''" "canonicalIp s"] joinWith_splitOn [of "CHR ''.''" s]
    by auto
  also have "\<dots> \<longleftrightarrow> [?r a, ?r b, ?r c, ?r d] = [a, b, c, d]"
    by (simp add: canonicalIp_four [OF assms sp] splitOn_four nd sp)
  also have "\<dots> \<longleftrightarrow> noLeadingZeros s"
    using o by (simp add: noLeadingZeros_def sp octetGroup_plain)
  finally show ?thesis .
qed

section \<open>What parseInt reads\<close>

lemma isDigit_plain:
  assumes "isDigit c"
  shows "\<not> isWhiteSpace c" "c \<noteq> CHR ''+''" "c \<noteq> CHR ''-''"
  using assms by (auto simp add: isDigit_def isWhiteSpace_def)

lemma sign_plain: "\<not> isWhiteSpace CHR ''+''" "\<not> isWhiteSpace CHR ''-''"
  by (simp_all add: isWhiteSpace_def)

lemma takeWhile_digits:
  assumes "list_all isDigit ds" "rest = [] \<or> \<not> isDigit (hd rest)"
  shows "takeWhile (isRadixDigit 10) (ds @ rest) = ds"
proof -
  from assms(2) have "takeWhile isDigit rest = []" by (cases rest) auto
  with assms(1) show ?thesis
    by (simp add: isRadixDigit_10 [abs_def] takeWhile_append2 list_all_iff)
qed

text \<open>What \<open>parseInt\<close> reads in radix 10: white space, one optional sign, a run of digits
  that ends at the end of the string or at a character that is no digit.\<close>

lemma parseInt_reads:
  assumes "list_all isWhiteSpace ws" "sign = [] \<or> sign = ''+'' \<or> sign = ''-''"
    "ds \<noteq> []" "list_all isDigit ds" "rest = [] \<or> \<not> isDigit (hd rest)"
  shows "parseInt (ws @ sign @ ds @ rest) 10 =
           Some (if sign = ''-'' then - int (digitsValue 10 0 ds) else int (digitsValue 10 0 ds))"
proof -
  from assms(3) obtain d ds' where ds: "ds = d # ds'" by (cases ds) auto
  with assms(4) have d: "isDigit d" by simp
  have tw: "takeWhile (isRadixDigit 10) (ds @ rest) = ds"
    using assms(4,5) by (rule takeWhile_digits)
  from assms(2) have h: "\<not> isWhiteSpace (hd (sign @ ds @ rest))"
    using d ds by (auto simp add: isDigit_plain sign_plain)
  have "sign @ ds @ rest \<noteq> []" using assms(3) by simp
  with h assms(1) have dw: "dropWhile isWhiteSpace (ws @ sign @ ds @ rest) = sign @ ds @ rest"
    by (cases "sign @ ds @ rest") (auto simp add: dropWhile_append list_all_iff)
  from assms(2) show ?thesis
  proof (elim disjE)
    assume "sign = []"
    with d ds tw dw assms(3) show ?thesis
      by (simp add: parseInt_def Let_def startsWith_def isDigit_plain)
  next
    assume "sign = ''+''"
    with tw dw assms(3) show ?thesis
      by (simp add: parseInt_def Let_def startsWith_def)
  next
    assume "sign = ''-''"
    with tw dw assms(3) show ?thesis
      by (simp add: parseInt_def Let_def startsWith_def)
  qed
qed

lemma dropWhile_stops: "dropWhile P xs = [] \<or> \<not> P (hd (dropWhile P xs))"
  by (induction xs) auto

lemma sign_split:
  "(if startsWith s CHR ''+'' \<or> startsWith s CHR ''-'' then [hd s] else [])
     @ (if startsWith s CHR ''+'' \<or> startsWith s CHR ''-'' then tl s else s) = s"
  by (cases s) (auto simp add: startsWith_def)

lemma sign_cases:
  "(if startsWith s CHR ''+'' \<or> startsWith s CHR ''-'' then [hd s] else []) \<in> {[], ''+'', ''-''}"
  by (cases s) (auto simp add: startsWith_def)

lemma parseInt_shape:
  assumes "parseInt t 10 = Some n"
  shows "\<exists>ws sign ds rest. t = ws @ sign @ ds @ rest \<and> list_all isWhiteSpace ws
           \<and> (sign = [] \<or> sign = ''+'' \<or> sign = ''-'') \<and> ds \<noteq> [] \<and> list_all isDigit ds
           \<and> (rest = [] \<or> \<not> isDigit (hd rest))
           \<and> n = (if sign = ''-'' then - int (digitsValue 10 0 ds) else int (digitsValue 10 0 ds))"
proof -
  let ?ws = "takeWhile isWhiteSpace t"
  let ?s = "dropWhile isWhiteSpace t"
  let ?signed = "startsWith ?s CHR ''+'' \<or> startsWith ?s CHR ''-''"
  let ?sign = "if ?signed then [hd ?s] else []"
  let ?u = "if ?signed then tl ?s else ?s"
  let ?ds = "takeWhile (isRadixDigit 10) ?u"
  let ?rest = "dropWhile (isRadixDigit 10) ?u"
  have b: "?sign @ ?u = ?s" by (rule sign_split)
  have "?ws @ ?sign @ ?ds @ ?rest = ?ws @ ?sign @ ?u" by (simp only: takeWhile_dropWhile_id)
  also have "\<dots> = ?ws @ ?s" using b by (rule arg_cong)
  also have "\<dots> = t" by (rule takeWhile_dropWhile_id)
  finally have t: "t = ?ws @ ?sign @ ?ds @ ?rest" by (rule sym)
  have ws: "list_all isWhiteSpace ?ws" by (auto simp add: list_all_iff dest: set_takeWhileD)
  have sg: "?sign = [] \<or> ?sign = ''+'' \<or> ?sign = ''-''"
    using sign_cases [of ?s] by blast
  from assms have ne: "?ds \<noteq> []" by (auto simp add: parseInt_def Let_def split: if_splits)
  have dg: "list_all isDigit ?ds"
    by (auto simp add: list_all_iff isRadixDigit_10 dest: set_takeWhileD)
  have rs: "?rest = [] \<or> \<not> isDigit (hd ?rest)"
    using dropWhile_stops [of "isRadixDigit 10" ?u] by (simp only: isRadixDigit_10)
  have "parseInt t 10 = Some (if ?sign = ''-'' then - int (digitsValue 10 0 ?ds) else int (digitsValue 10 0 ?ds))"
    by (subst t) (intro parseInt_reads ws sg ne dg rs)
  with assms have "n = (if ?sign = ''-'' then - int (digitsValue 10 0 ?ds) else int (digitsValue 10 0 ?ds))"
    by simp
  with t ws sg ne dg rs show ?thesis by blast
qed

lemma parseInt_readsInteger: "parseInt t 10 = Some n \<longleftrightarrow> readsInteger t n"
proof
  assume "parseInt t 10 = Some n"
  then show "readsInteger t n" unfolding readsInteger_def by (rule parseInt_shape)
next
  assume "readsInteger t n"
  then obtain ws sign ds rest where t: "t = ws @ sign @ ds @ rest"
    and h: "list_all isWhiteSpace ws" "sign = [] \<or> sign = ''+'' \<or> sign = ''-''" "ds \<noteq> []"
      "list_all isDigit ds" "rest = [] \<or> \<not> isDigit (hd rest)"
    and n: "n = (if sign = ''-'' then - int (digitsValue 10 0 ds) else int (digitsValue 10 0 ds))"
    unfolding readsInteger_def by blast
  from h show "parseInt t 10 = Some n" unfolding t n by (rule parseInt_reads)
qed

section \<open>Masks\<close>

lemma removeDots_bitsOf: "removeDots (bitsOf k n @ r) = bitsOf k n @ removeDots r"
  using bitsOf_no_dot [of k n] by (auto simp add: removeDots_def filter_id_conv)

lemma removeDots_four:
  "removeDots (bitsOf 8 a @ CHR ''.'' # bitsOf 8 b @ CHR ''.'' # bitsOf 8 c @ CHR ''.'' # bitsOf 8 d)
   = bitsOf 8 a @ bitsOf 8 b @ bitsOf 8 c @ bitsOf 8 d"
proof -
  have "removeDots (bitsOf 8 d) = bitsOf 8 d"
    using removeDots_bitsOf [of 8 d "[]"] by (simp add: removeDots_def)
  moreover have "\<And>r. removeDots (CHR ''.'' # r) = removeDots r" by (simp add: removeDots_def)
  ultimately show ?thesis by (simp add: removeDots_bitsOf)
qed

lemma bitsOf_32:
  assumes "b < 256" "c < 256" "d < 256"
  shows "bitsOf 32 (((a * 256 + b) * 256 + c) * 256 + d)
         = bitsOf 8 a @ bitsOf 8 b @ bitsOf 8 c @ bitsOf 8 d"
proof -
  have p: "(256::nat) = 2 ^ 8" by simp
  have "bitsOf (24 + 8) (((a * 256 + b) * 256 + c) * 2 ^ 8 + d)
        = bitsOf 24 ((a * 256 + b) * 256 + c) @ bitsOf 8 d"
    using assms(3) by (intro bitsOf_append) simp
  moreover have "bitsOf (16 + 8) ((a * 256 + b) * 2 ^ 8 + c) = bitsOf 16 (a * 256 + b) @ bitsOf 8 c"
    using assms(2) by (intro bitsOf_append) simp
  moreover have "bitsOf (8 + 8) (a * 2 ^ 8 + b) = bitsOf 8 a @ bitsOf 8 b"
    using assms(1) by (intro bitsOf_append) simp
  ultimately show ?thesis by simp
qed

lemma removeDots_ipToBinary:
  assumes "validateIP s"
  shows "\<exists>b. ipToBinary s = Inr b \<and> removeDots b = binaryExpansion s"
proof -
  from assms obtain a b c d where sp: "splitOn CHR ''.'' s = [a, b, c, d]"
    and o: "octetGroup a" "octetGroup b" "octetGroup c" "octetGroup d"
    by (rule validateIP_cases)
  from o have "binaryExpansion s = bitsOf 8 (digitsValue 10 0 a) @ bitsOf 8 (digitsValue 10 0 b)
      @ bitsOf 8 (digitsValue 10 0 c) @ bitsOf 8 (digitsValue 10 0 d)"
    unfolding binaryExpansion_def ipValue_four [OF sp]
    by (intro bitsOf_32 octetGroup_value)
  then show ?thesis
    by (simp add: ipToBinary_four [OF assms sp] removeDots_four)
qed

lemma binaryExpansion_shape: "length (binaryExpansion s) = 32" "list_all isBin (binaryExpansion s)"
  by (simp_all add: binaryExpansion_def bitsOf_length bitsOf_isBin)

lemma hasLeadingOnes_iff: "hasLeadingOnes bits \<longleftrightarrow> (\<exists>L. prefixOnes L bits)"
proof
  assume h: "hasLeadingOnes bits"
  let ?t = "takeWhile (\<lambda>c. c = CHR ''1'') bits"
  let ?d = "dropWhile (\<lambda>c. c = CHR ''1'') bits"
  have "\<forall>c\<in>set ?t. c = CHR ''1''" by (auto dest: set_takeWhileD)
  then have t: "?t = replicate (length ?t) CHR ''1''"
    by (metis replicate_length_same)
  from h have "\<forall>c\<in>set ?d. c = CHR ''0''"
    by (simp add: hasLeadingOnes_def dropWhile_eq_Nil_conv)
  then have d: "?d = replicate (length ?d) CHR ''0''"
    by (metis replicate_length_same)
  have "bits = ?t @ ?d" by simp
  with t d have "bits = replicate (length ?t) CHR ''1'' @ replicate (length ?d) CHR ''0''"
    by metis
  moreover have "length ?t + length ?d = length bits"
    using length_append [of ?t ?d] by simp
  then have "length ?d = length bits - length ?t" "length ?t \<le> length bits"
    by simp_all
  ultimately have "prefixOnes (length ?t) bits" by (simp add: prefixOnes_def)
  then show "\<exists>L. prefixOnes L bits" ..
next
  assume "\<exists>L. prefixOnes L bits"
  then obtain L where b: "bits = replicate L CHR ''1'' @ replicate (length bits - L) CHR ''0''"
    by (auto simp add: prefixOnes_def)
  let ?M = "length bits - L"
  have "dropWhile (\<lambda>c. c = CHR ''1'') (replicate L CHR ''1'' @ replicate ?M CHR ''0'')
        = replicate ?M CHR ''0''"
    by (cases ?M) (simp_all add: dropWhile_append3 dropWhile_append2)
  moreover have "dropWhile (\<lambda>c. c = CHR ''0'') (replicate ?M CHR ''0'') = []"
    by simp
  ultimately show "hasLeadingOnes bits"
    unfolding hasLeadingOnes_def by (subst b) simp
qed

lemma validateIP_not_cidr: "validateIP s \<Longrightarrow> \<not> startsWith s CHR ''/''"
proof -
  assume "validateIP s"
  then obtain a b c d where s: "s = a @ CHR ''.'' # b @ CHR ''.'' # c @ CHR ''.'' # d"
    and o: "octetGroup a" by (rule validateIP_cases)
  from o obtain x xs where a: "a = x # xs" "isDigit x"
    by (cases a) (auto simp add: octetGroup_def digitGroup_def)
  then have "x \<noteq> CHR ''/''" by (auto simp add: isDigit_def)
  with s a show ?thesis by (simp add: startsWith_def)
qed

lemma validateSubnetMask_dotted:
  assumes "validateIP s"
  shows "validateSubnetMask s \<longleftrightarrow> hasLeadingOnes (binaryExpansion s)"
proof -
  from assms obtain b where b: "ipToBinary s = Inr b" "removeDots b = binaryExpansion s"
    using removeDots_ipToBinary by blast
  have "binaryExpansion s \<noteq> []" using binaryExpansion_shape(1) [of s] by auto
  with assms b show ?thesis
    by (simp add: validateSubnetMask_def validateIP_not_cidr hasOnlyBinary_def
        binaryExpansion_shape)
qed

lemma validateSubnetMask_cidr:
  assumes "startsWith s CHR ''/''"
  shows "validateSubnetMask s \<longleftrightarrow>
           (\<exists>n. parseInt (substring s 1) 10 = Some n \<and> 0 \<le> n \<and> n \<le> 32)"
  using assms by (auto simp add: validateSubnetMask_def num_le_def Let_def split: option.splits)

lemma validateSubnetMask_other:
  "\<not> startsWith s CHR ''/'' \<Longrightarrow> \<not> validateIP s \<Longrightarrow> \<not> validateSubnetMask s"
  by (simp add: validateSubnetMask_def)

lemma count_prefixOnes:
  "prefixOnes L bits \<Longrightarrow> length (filter (\<lambda>c. c = CHR ''1'') bits) = L"
proof -
  assume "prefixOnes L bits"
  then have b: "bits = replicate L CHR ''1'' @ replicate (length bits - L) CHR ''0''"
    by (simp add: prefixOnes_def)
  show ?thesis by (subst b) simp
qed

lemma maskToCidr_dotted:
  assumes "validateIP s" "prefixOnes L (binaryExpansion s)"
  shows "maskToCidr s = Inr (int L)"
proof -
  from assms(1) obtain b where b: "ipToBinary s = Inr b" "removeDots b = binaryExpansion s"
    using removeDots_ipToBinary by blast
  from assms have "validateSubnetMask s"
    using hasLeadingOnes_iff validateSubnetMask_dotted by blast
  with b assms(2) show ?thesis
    by (simp add: maskToCidr_def count_prefixOnes)
qed

lemma bitsOf_numeral:
  "bitsOf (numeral k) n = bitsOf (pred_numeral k) (n div 2) @ [if odd n then CHR ''1'' else CHR ''0'']"
  by (simp add: numeral_eq_Suc)

lemmas ev_bits = binaryExpansion_def ipValue_def bitsOf_numeral prefixOnes_def

lemma cidrToMask_all:
  "list_all (\<lambda>n. case cidrToMask (Some n) of Inl e \<Rightarrow> False
      | Inr m \<Rightarrow> validateIP m \<and> noLeadingZeros m \<and> prefixOnes (nat n) (binaryExpansion m)) [0..32]"
  by (simp add: upto.simps cidrToMask_def ev_string ev_num ev_ip ev_bits noLeadingZeros_def
      plainGroup_def)

lemma cidrToMask_in_range:
  assumes "0 \<le> n" "n \<le> 32"
  obtains m where "cidrToMask (Some n) = Inr m" "validateIP m" "noLeadingZeros m"
    "prefixOnes (nat n) (binaryExpansion m)" "maskToCidr m = Inr n"
proof -
  from assms have "n \<in> set [0..32]" by simp
  with cidrToMask_all obtain m where m: "cidrToMask (Some n) = Inr m" "validateIP m"
    "noLeadingZeros m" "prefixOnes (nat n) (binaryExpansion m)"
    unfolding list_all_iff by (fastforce split: sum.splits)
  then have "maskToCidr m = Inr (int (nat n))" by (simp add: maskToCidr_dotted)
  with assms m show ?thesis using that by simp
qed

section \<open>One address up, one address down\<close>

lemma incrementLoop_four:
  "incrementLoop 3 [Some a, Some b, Some c, Some d] =
     (if d < 255 then Inr (joinWith ''.'' (map toString [Some a, Some b, Some c, Some (d + 1)]))
      else if c < 255 then Inr (joinWith ''.'' (map toString [Some a, Some b, Some (c + 1), Some 0]))
      else if b < 255 then Inr (joinWith ''.'' (map toString [Some a, Some (b + 1), Some 0, Some 0]))
      else if a < 255 then Inr (joinWith ''.'' (map toString [Some (a + 1), Some 0, Some 0, Some 0]))
      else Inl AddressSpaceExhausted)"
  by (simp add: numeral_3_eq_3 num_lt_def num_add_def)

lemma decrementLoop_four:
  "decrementLoop 3 [Some a, Some b, Some c, Some d] =
     (if 0 < d then Inr (joinWith ''.'' (map toString [Some a, Some b, Some c, Some (d - 1)]))
      else if 0 < c then Inr (joinWith ''.'' (map toString [Some a, Some b, Some (c - 1), Some 255]))
      else if 0 < b then Inr (joinWith ''.'' (map toString [Some a, Some (b - 1), Some 255, Some 255]))
      else if 0 < a then Inr (joinWith ''.'' (map toString [Some (a - 1), Some 255, Some 255, Some 255]))
      else Inr (joinWith ''.'' (map toString [Some 255, Some 255, Some 255, Some 255])))"
  by (simp add: numeral_3_eq_3 num_lt_def num_sub_def)

lemma octets_of_valid:
  assumes "validateIP s"
  obtains a b c d where "map toNumber (splitOn CHR ''.'' s) = [Some (int a), Some (int b), Some (int c), Some (int d)]"
    and "a < 256" "b < 256" "c < 256" "d < 256"
    and "ipValue s = ((a * 256 + b) * 256 + c) * 256 + d"
proof -
  from assms obtain ga gb gc gd where sp: "splitOn CHR ''.'' s = [ga, gb, gc, gd]"
    and o: "octetGroup ga" "octetGroup gb" "octetGroup gc" "octetGroup gd"
    by (rule validateIP_cases)
  show ?thesis
    by (rule that [of "digitsValue 10 0 ga" "digitsValue 10 0 gb" "digitsValue 10 0 gc" "digitsValue 10 0 gd"])
      (use sp o in \<open>simp_all add: octetGroup_toNumber octetGroup_value ipValue_four\<close>)
qed

lemma join_octets:
  assumes "a < 256" "b < 256" "c < 256" "d < 256"
  shows "joinWith ''.'' (map toString [Some (int a), Some (int b), Some (int c), Some (int d)])
         = ipOfValue (((a * 256 + b) * 256 + c) * 256 + d)"
  unfolding ipOfValue_octets [OF assms] by (simp add: toString_nat)


lemma ipValue_bound: "validateIP s \<Longrightarrow> ipValue s < 4294967296"
proof -
  assume "validateIP s"
  then obtain a b c d where "a < 256" "b < 256" "c < 256" "d < 256"
    and "ipValue s = ((a * 256 + b) * 256 + c) * 256 + d"
    by (rule octets_of_valid)
  then show ?thesis by simp
qed

lemma join_octets_int:
  assumes "0 \<le> a" "a < 256" "0 \<le> b" "b < 256" "0 \<le> c" "c < 256" "0 \<le> d" "d < 256"
  shows "joinWith ''.'' (map toString [Some a, Some b, Some c, Some d])
         = ipOfValue (((nat a * 256 + nat b) * 256 + nat c) * 256 + nat d)"
  using join_octets [of "nat a" "nat b" "nat c" "nat d"] assms by simp

lemma incrementIp_valid:
  assumes "validateIP s"
  shows "incrementIp s = (if ipValue s = 4294967295 then Inl AddressSpaceExhausted
                          else Inr (ipOfValue (ipValue s + 1)))"
proof -
  from assms obtain a b c d
    where oc: "map toNumber (splitOn CHR ''.'' s) = [Some (int a), Some (int b), Some (int c), Some (int d)]"
      and r: "a < 256" "b < 256" "c < 256" "d < 256"
      and v: "ipValue s = ((a * 256 + b) * 256 + c) * 256 + d"
    by (rule octets_of_valid)
  have inc: "incrementIp s = incrementLoop 3 [Some (int a), Some (int b), Some (int c), Some (int d)]"
    using assms oc by (simp add: incrementIp_def)
  consider (d) "d < 255" | (c) "d = 255" "c < 255" | (b) "d = 255" "c = 255" "b < 255"
    | (a) "d = 255" "c = 255" "b = 255" "a < 255" | (top) "d = 255" "c = 255" "b = 255" "a = 255"
    using r by linarith
  then show ?thesis
  proof cases
    case d
    have "joinWith ''.'' (map toString [Some (int a), Some (int b), Some (int c), Some (int d + 1)])
          = ipOfValue (((nat (int a) * 256 + nat (int b)) * 256 + nat (int c)) * 256 + nat (int d + 1))"
      by (rule join_octets_int) (use r d in simp_all)
    also have "\<dots> = ipOfValue (ipValue s + 1)"
    proof -
      have "((nat (int a) * 256 + nat (int b)) * 256 + nat (int c)) * 256 + nat (int d + 1) = ipValue s + 1" using d v by simp
      then show ?thesis by (rule arg_cong)
    qed
    finally have "incrementIp s = Inr (ipOfValue (ipValue s + 1))"
      using d by (simp add: inc incrementLoop_four)
    moreover have "ipValue s \<noteq> 4294967295" using v r d by simp
    ultimately show ?thesis by simp
  next
    case c
    have "joinWith ''.'' (map toString [Some (int a), Some (int b), Some (int c + 1), Some 0])
          = ipOfValue (((nat (int a) * 256 + nat (int b)) * 256 + nat (int c + 1)) * 256 + nat 0)"
      by (rule join_octets_int) (use r c in simp_all)
    also have "\<dots> = ipOfValue (ipValue s + 1)"
    proof -
      have "((nat (int a) * 256 + nat (int b)) * 256 + nat (int c + 1)) * 256 + nat 0 = ipValue s + 1" using c v by simp
      then show ?thesis by (rule arg_cong)
    qed
    finally have "incrementIp s = Inr (ipOfValue (ipValue s + 1))"
      using c by (simp add: inc incrementLoop_four)
    moreover have "ipValue s \<noteq> 4294967295" using v r c by simp
    ultimately show ?thesis by simp
  next
    case b
    have "joinWith ''.'' (map toString [Some (int a), Some (int b + 1), Some 0, Some 0])
          = ipOfValue (((nat (int a) * 256 + nat (int b + 1)) * 256 + nat 0) * 256 + nat 0)"
      by (rule join_octets_int) (use r b in simp_all)
    also have "\<dots> = ipOfValue (ipValue s + 1)"
    proof -
      have "((nat (int a) * 256 + nat (int b + 1)) * 256 + nat 0) * 256 + nat 0 = ipValue s + 1" using b v by simp
      then show ?thesis by (rule arg_cong)
    qed
    finally have "incrementIp s = Inr (ipOfValue (ipValue s + 1))"
      using b by (simp add: inc incrementLoop_four)
    moreover have "ipValue s \<noteq> 4294967295" using v r b by simp
    ultimately show ?thesis by simp
  next
    case a
    have "joinWith ''.'' (map toString [Some (int a + 1), Some 0, Some 0, Some 0])
          = ipOfValue (((nat (int a + 1) * 256 + nat 0) * 256 + nat 0) * 256 + nat 0)"
      by (rule join_octets_int) (use r a in simp_all)
    also have "\<dots> = ipOfValue (ipValue s + 1)"
    proof -
      have "((nat (int a + 1) * 256 + nat 0) * 256 + nat 0) * 256 + nat 0 = ipValue s + 1" using a v by simp
      then show ?thesis by (rule arg_cong)
    qed
    finally have "incrementIp s = Inr (ipOfValue (ipValue s + 1))"
      using a by (simp add: inc incrementLoop_four)
    moreover have "ipValue s \<noteq> 4294967295" using v r a by simp
    ultimately show ?thesis by simp
  next
    case top
    with v have "ipValue s = 4294967295" by simp
    with top show ?thesis by (simp add: inc incrementLoop_four)
  qed
qed

lemma decrementIp_valid:
  assumes "validateIP s"
  shows "decrementIp s = (if ipValue s = 0 then Inl AddressSpaceExhausted
                          else Inr (ipOfValue (ipValue s - 1)))"
proof -
  from assms obtain a b c d
    where oc: "map toNumber (splitOn CHR ''.'' s) = [Some (int a), Some (int b), Some (int c), Some (int d)]"
      and r: "a < 256" "b < 256" "c < 256" "d < 256"
      and v: "ipValue s = ((a * 256 + b) * 256 + c) * 256 + d"
    by (rule octets_of_valid)
  have z: "list_all (\<lambda>octet. octet = Some 0) [Some (int a), Some (int b), Some (int c), Some (int d)]
           \<longleftrightarrow> ipValue s = 0"
    by (auto simp add: v)
  have unf: "decrementIp s = (if ipValue s = 0 then Inl AddressSpaceExhausted
      else decrementLoop 3 [Some (int a), Some (int b), Some (int c), Some (int d)])"
    unfolding decrementIp_def oc Let_def z using assms by simp
  have dec: "decrementIp s = decrementLoop 3 [Some (int a), Some (int b), Some (int c), Some (int d)]"
    if "ipValue s \<noteq> 0"
    using that by (simp add: unf)
  consider (d) "0 < d" | (c) "d = 0" "0 < c" | (b) "d = 0" "c = 0" "0 < b"
    | (a) "d = 0" "c = 0" "b = 0" "0 < a" | (bot) "d = 0" "c = 0" "b = 0" "a = 0"
    by linarith
  then show ?thesis
  proof cases
    case d
    then have nz: "ipValue s \<noteq> 0" using v by simp
    have "joinWith ''.'' (map toString [Some (int a), Some (int b), Some (int c), Some (int d - 1)])
          = ipOfValue (((nat (int a) * 256 + nat (int b)) * 256 + nat (int c)) * 256 + nat (int d - 1))"
      by (rule join_octets_int) (use r d in simp_all)
    also have "\<dots> = ipOfValue (ipValue s - 1)"
    proof -
      have "((nat (int a) * 256 + nat (int b)) * 256 + nat (int c)) * 256 + nat (int d - 1) = ipValue s - 1" using d v by simp
      then show ?thesis by (rule arg_cong)
    qed
    finally have "decrementIp s = Inr (ipOfValue (ipValue s - 1))"
      using d by (simp add: dec [OF nz] decrementLoop_four)
    with nz show ?thesis by simp
  next
    case c
    then have nz: "ipValue s \<noteq> 0" using v by simp
    have "joinWith ''.'' (map toString [Some (int a), Some (int b), Some (int c - 1), Some 255])
          = ipOfValue (((nat (int a) * 256 + nat (int b)) * 256 + nat (int c - 1)) * 256 + nat 255)"
      by (rule join_octets_int) (use r c in simp_all)
    also have "\<dots> = ipOfValue (ipValue s - 1)"
    proof -
      have "((nat (int a) * 256 + nat (int b)) * 256 + nat (int c - 1)) * 256 + nat 255 = ipValue s - 1" using c v by simp
      then show ?thesis by (rule arg_cong)
    qed
    finally have "decrementIp s = Inr (ipOfValue (ipValue s - 1))"
      using c by (simp add: dec [OF nz] decrementLoop_four)
    with nz show ?thesis by simp
  next
    case b
    then have nz: "ipValue s \<noteq> 0" using v by simp
    have "joinWith ''.'' (map toString [Some (int a), Some (int b - 1), Some 255, Some 255])
          = ipOfValue (((nat (int a) * 256 + nat (int b - 1)) * 256 + nat 255) * 256 + nat 255)"
      by (rule join_octets_int) (use r b in simp_all)
    also have "\<dots> = ipOfValue (ipValue s - 1)"
    proof -
      have "((nat (int a) * 256 + nat (int b - 1)) * 256 + nat 255) * 256 + nat 255 = ipValue s - 1" using b v by simp
      then show ?thesis by (rule arg_cong)
    qed
    finally have "decrementIp s = Inr (ipOfValue (ipValue s - 1))"
      using b by (simp add: dec [OF nz] decrementLoop_four)
    with nz show ?thesis by simp
  next
    case a
    then have nz: "ipValue s \<noteq> 0" using v by simp
    have "joinWith ''.'' (map toString [Some (int a - 1), Some 255, Some 255, Some 255])
          = ipOfValue (((nat (int a - 1) * 256 + nat 255) * 256 + nat 255) * 256 + nat 255)"
      by (rule join_octets_int) (use r a in simp_all)
    also have "\<dots> = ipOfValue (ipValue s - 1)"
    proof -
      have "((nat (int a - 1) * 256 + nat 255) * 256 + nat 255) * 256 + nat 255 = ipValue s - 1" using a v by simp
      then show ?thesis by (rule arg_cong)
    qed
    finally have "decrementIp s = Inr (ipOfValue (ipValue s - 1))"
      using a by (simp add: dec [OF nz] decrementLoop_four)
    with nz show ?thesis by simp
  next
    case bot
    have zero: "ipValue s = 0" using bot v by simp
    then show ?thesis by (simp add: unf)
  qed
qed

section \<open>The highest and the lowest address\<close>

lemma validateIP_highest: "validateIP ''255.255.255.255''"
  by (simp add: ev_ip ev_string)

lemma validateIP_lowest: "validateIP ''0.0.0.0''"
  by (simp add: ev_ip ev_string)

lemma ipToBinary_highest:
  "ipToBinary ''255.255.255.255'' = Inr ''11111111.11111111.11111111.11111111''"
  by (simp add: ipToBinary_def validateIP_highest ev_string ev_num)

lemma validateSubnetMask_highest: "validateSubnetMask ''255.255.255.255''"
  by (simp add: validateSubnetMask_def validateIP_highest ipToBinary_highest hasOnlyBinary_def
      hasLeadingOnes_def ev_string)

lemma getWildcardMask_highest: "getWildcardMask ''255.255.255.255'' = Inr ''0.0.0.0''"
  by (simp add: getWildcardMask_def validateSubnetMask_highest ev_string ev_num)

lemma resolveMask_slash32: "resolveMask ''/32'' = Inr ''255.255.255.255''"
  by (simp add: resolveMask_def cidrToMask_def ev_string ev_num)

lemma resolveMask_dotted32: "resolveMask ''255.255.255.255'' = Inr ''255.255.255.255''"
  by (simp add: resolveMask_def ev_string)

lemma bitwiseAnd_highest:
  "bitwiseAnd ''255.255.255.255'' ''255.255.255.255'' = ''255.255.255.255''"
  by (simp add: bitwiseAnd_def nthOrUndefined_def enumerate_eq_zip ev_string ev_num)

lemma bitwiseAnd_lowest: "bitwiseAnd ''0.0.0.0'' ''255.255.255.255'' = ''0.0.0.0''"
  by (simp add: bitwiseAnd_def nthOrUndefined_def enumerate_eq_zip ev_string ev_num)

lemma bitwiseOr_highest: "bitwiseOr ''255.255.255.255'' ''0.0.0.0'' = Inr ''255.255.255.255''"
  by (simp add: bitwiseOr_def validateIP_highest validateIP_lowest nthOrUndefined_def
      enumerate_eq_zip ev_string ev_num)

lemma bitwiseOr_lowest: "bitwiseOr ''0.0.0.0'' ''0.0.0.0'' = Inr ''0.0.0.0''"
  by (simp add: bitwiseOr_def validateIP_lowest nthOrUndefined_def enumerate_eq_zip
      ev_string ev_num)

lemma ipToBinary_lowest:
  "ipToBinary ''0.0.0.0'' = Inr ''00000000.00000000.00000000.00000000''"
  by (simp add: ipToBinary_def validateIP_lowest ev_string ev_num)

lemma incrementIp_highest: "incrementIp ''255.255.255.255'' = Inl AddressSpaceExhausted"
  by (simp add: incrementIp_def validateIP_highest numeral_3_eq_3 ev_string ev_num)

lemma incrementIp_lowest: "incrementIp ''0.0.0.0'' = Inr ''0.0.0.1''"
  by (simp add: incrementIp_def validateIP_lowest numeral_3_eq_3 ev_string ev_num)

lemma decrementIp_lowest: "decrementIp ''0.0.0.0'' = Inl AddressSpaceExhausted"
  by (simp add: decrementIp_def validateIP_lowest ev_string ev_num)

lemma digitsValue_bound:
  "list_all isDigit xs \<Longrightarrow> digitsValue 10 acc xs < (acc + 1) * 10 ^ length xs"
proof (induction xs arbitrary: acc)
  case Nil
  then show ?case by simp
next
  case (Cons c cs)
  then have "digitVal c < 10" by (simp add: digitVal_less)
  then have "acc * 10 + digitVal c + 1 \<le> (acc + 1) * 10" by simp
  then have le: "(acc * 10 + digitVal c + 1) * 10 ^ length cs \<le> (acc + 1) * 10 * 10 ^ length cs"
    by (rule mult_le_mono1)
  from Cons have "digitsValue 10 (acc * 10 + digitVal c) cs
      < (acc * 10 + digitVal c + 1) * 10 ^ length cs" by simp
  then have "digitsValue 10 (acc * 10 + digitVal c) cs < (acc + 1) * 10 * 10 ^ length cs"
    using le by (rule less_le_trans)
  then have "digitsValue 10 acc (c # cs) < (acc + 1) * 10 * 10 ^ length cs" by simp
  also have "(acc + 1) * 10 * 10 ^ length cs = (acc + 1) * 10 ^ length (c # cs)"
    by (simp add: algebra_simps)
  finally show ?case .
qed

lemma octetGroup_large_plain:
  assumes "octetGroup g" "100 \<le> digitsValue 10 0 g"
  shows "plainGroup g"
proof (rule ccontr)
  assume n: "\<not> plainGroup g"
  from assms(1) obtain c cs where g: "g = c # cs" "list_all isDigit cs" "length cs \<le> 2"
    by (cases g) (auto simp add: octetGroup_def digitGroup_def)
  with n have c: "c = CHR ''0''" by (simp add: plainGroup_def)
  from g have "digitsValue 10 0 cs < (0 + 1) * 10 ^ length cs" by (intro digitsValue_bound)
  moreover from g have "(10::nat) ^ length cs \<le> 10 ^ 2" by (intro power_increasing) simp_all
  ultimately have "digitsValue 10 0 cs < 100" by simp
  with g c assms(2) show False by (simp add: digitVal_def)
qed

lemma octetGroup_255: 
  assumes "octetGroup g" "digitsValue 10 0 g = 255"
  shows "g = ''255''"
proof -
  from assms have "plainGroup g" by (intro octetGroup_large_plain) simp_all
  with assms(1) have "natToRadix 10 (digitsValue 10 0 g) = g" by (simp add: octetGroup_plain)
  with assms(2) show ?thesis by (simp add: natToRadix.simps digitChar_table)
qed

lemma highest_address:
  "validateIP s \<and> ipValue s = 4294967295 \<longleftrightarrow> s = ''255.255.255.255''"
proof
  assume a: "validateIP s \<and> ipValue s = 4294967295"
  then obtain ga gb gc gd where sp: "splitOn CHR ''.'' s = [ga, gb, gc, gd]"
    and s: "s = ga @ CHR ''.'' # gb @ CHR ''.'' # gc @ CHR ''.'' # gd"
    and o: "octetGroup ga" "octetGroup gb" "octetGroup gc" "octetGroup gd"
    by (auto elim: validateIP_cases)
  let ?a = "digitsValue 10 0 ga" and ?b = "digitsValue 10 0 gb"
  and ?c = "digitsValue 10 0 gc" and ?d = "digitsValue 10 0 gd"
  from o have r: "?a < 256" "?b < 256" "?c < 256" "?d < 256" by (simp_all add: octetGroup_value)
  from a sp have "((?a * 256 + ?b) * 256 + ?c) * 256 + ?d = 4294967295"
    by (simp add: ipValue_four)
  then have e: "16777216 * ?a + 65536 * ?b + 256 * ?c + ?d = 4294967295" by simp
  have "?a = 255" using r e by linarith
  moreover have "?b = 255" using r e by linarith
  moreover have "?c = 255" using r e by linarith
  moreover have "?d = 255" using r e by linarith
  ultimately have "ga = ''255''" "gb = ''255''" "gc = ''255''" "gd = ''255''"
    using o by (simp_all add: octetGroup_255)
  with s show "s = ''255.255.255.255''" by simp
next
  assume "s = ''255.255.255.255''"
  then show "validateIP s \<and> ipValue s = 4294967295"
    by (simp add: validateIP_highest ipValue_def ev_string)
qed

section \<open>The steps of a successful calculation\<close>

lemma calculateSubnet_success:
  assumes "calculateSubnet ip m = Inr r"
  obtains maskStr wildcard broadcast first0 last0 cidr binIP binMask where
    "validateIP ip" "resolveMask m = Inr maskStr" "validateSubnetMask maskStr"
    "getWildcardMask maskStr = Inr wildcard"
    "bitwiseOr (bitwiseAnd ip maskStr) wildcard = Inr broadcast"
    "incrementIp (bitwiseAnd ip maskStr) = Inr first0"
    "decrementIp broadcast = Inr last0"
    "maskToCidr maskStr = Inr cidr"
    "ipToBinary ip = Inr binIP" "ipToBinary maskStr = Inr binMask"
    "r = \<lparr> networkAddress = bitwiseAnd ip maskStr,
           broadcastAddress = broadcast,
           firstHost = (if cidr \<ge> 31 then bitwiseAnd ip maskStr else first0),
           lastHost = (if cidr \<ge> 31 then broadcast else last0),
           totalHosts = 2 ^ nat (32 - cidr),
           usableHosts = (if cidr \<ge> 31 then 2 ^ nat (32 - cidr) else max 0 (2 ^ nat (32 - cidr) - 2)),
           subnetMask = maskStr,
           wildcardMask = wildcard,
           binaryIP = binIP,
           binaryMask = binMask \<rparr>"
  using assms
  unfolding calculateSubnet_def bindE_def Let_def
  by (auto split: if_splits sum.splits)


lemma maskToCidr_success:
  assumes "maskToCidr maskStr = Inr c"
  obtains L where "validateIP maskStr" "prefixOnes L (binaryExpansion maskStr)" "c = int L" "L \<le> 32"
proof -
  from assms have vm: "validateSubnetMask maskStr" and "ipToBinary maskStr \<noteq> Inl InvalidAddress"
    by (auto simp add: maskToCidr_def split: if_splits sum.splits)
  then have v: "validateIP maskStr" by (auto simp add: ipToBinary_def split: if_splits)
  with vm obtain L where L: "prefixOnes L (binaryExpansion maskStr)"
    using validateSubnetMask_dotted hasLeadingOnes_iff by blast
  with v have "maskToCidr maskStr = Inr (int L)" by (rule maskToCidr_dotted)
  with assms have "c = int L" by simp
  moreover from L have "L \<le> 32" by (simp add: prefixOnes_def binaryExpansion_shape)
  ultimately show ?thesis using v L that by blast
qed


lemma resolveMask_dotted: "\<not> startsWith m CHR ''/'' \<Longrightarrow> resolveMask m = Inr m"
  by (simp add: resolveMask_def)


section \<open>Addresses in canonical form\<close>

lemma natToRadix_octetGroup:
  assumes "v < 256"
  shows "octetGroup (natToRadix 10 v)" "digitsValue 10 0 (natToRadix 10 v) = v"
proof -
  show v: "digitsValue 10 0 (natToRadix 10 v) = v" by (simp add: digitsValue_natToRadix)
  from assms have "v < 10 ^ 3" by simp
  then have "length (natToRadix 10 v) \<le> 3" by (intro natToRadix_length) simp_all
  moreover have "1 \<le> length (natToRadix 10 v)"
    using natToRadix_nonempty [of 10 v] by (cases "natToRadix 10 v") simp_all
  ultimately show "octetGroup (natToRadix 10 v)"
    using assms v by (simp add: octetGroup_def digitGroup_def natToRadix_isDigit)
qed

lemma natToRadix_no_dot: "CHR ''.'' \<notin> set (natToRadix 10 v)"
  using natToRadix_isDigit [of v] by (auto simp add: list_all_iff dest: isDigit_not_dot)

lemma splitOn_ipOfValue:
  "splitOn CHR ''.'' (ipOfValue n) = map (natToRadix 10)
     [n div 16777216 mod 256, n div 65536 mod 256, n div 256 mod 256, n mod 256]"
  by (simp add: ipOfValue_def splitOn_four natToRadix_no_dot)

lemma validateIP_ipOfValue: "validateIP (ipOfValue n)"
  by (simp add: validateIP_iff splitOn_ipOfValue natToRadix_octetGroup)

lemma noLeadingZeros_ipOfValue: "noLeadingZeros (ipOfValue n)"
  by (simp add: noLeadingZeros_def splitOn_ipOfValue natToRadix_plain)

lemma ipValue_ipOfValue: "n < 4294967296 \<Longrightarrow> ipValue (ipOfValue n) = n"
proof -
  assume n: "n < 4294967296"
  have "ipValue (ipOfValue n)
        = ((n div 16777216 mod 256 * 256 + n div 65536 mod 256) * 256 + n div 256 mod 256) * 256
            + n mod 256"
    by (simp add: ipValue_def splitOn_ipOfValue natToRadix_octetGroup)
  also have "\<dots> = n"
  proof -
    let ?q1 = "n div 256"
    let ?q2 = "?q1 div 256"
    let ?q3 = "?q2 div 256"
    have d2: "n div 65536 = ?q2" using div_mult2_eq [of n 256 256] by simp
    have d3: "n div 16777216 = ?q3"
      using div_mult2_eq [of n 256 65536] div_mult2_eq [of ?q1 256 256] by simp
    from n have "?q3 < 256" by simp
    then have m3: "?q3 mod 256 = ?q3" by simp
    have e2: "?q3 * 256 + ?q2 mod 256 = ?q2" by (rule div_mult_mod_eq)
    have e1: "?q2 * 256 + ?q1 mod 256 = ?q1" by (rule div_mult_mod_eq)
    have e0: "?q1 * 256 + n mod 256 = n" by (rule div_mult_mod_eq)
    show ?thesis unfolding d2 d3 m3 e2 e1 e0 ..
  qed
  finally show ?thesis .
qed

lemma canonicalIp_same_address:
  assumes "validateIP s"
  shows "validateIP (canonicalIp s)" "noLeadingZeros (canonicalIp s)"
    "ipValue (canonicalIp s) = ipValue s" "ipToBinary (canonicalIp s) = ipToBinary s"
proof -
  show v: "validateIP (canonicalIp s)" by (simp add: canonicalIp_def validateIP_ipOfValue)
  show "noLeadingZeros (canonicalIp s)" by (simp add: canonicalIp_def noLeadingZeros_ipOfValue)
  show i: "ipValue (canonicalIp s) = ipValue s"
    using assms by (simp add: canonicalIp_def ipValue_ipOfValue ipValue_bound)
  from assms obtain b where b: "ipToBinary s = Inr b" "removeDots b = binaryExpansion s"
    using removeDots_ipToBinary by blast
  from assms obtain ga gb gc gd where sp: "splitOn CHR ''.'' s = [ga, gb, gc, gd]"
    and o: "octetGroup ga" "octetGroup gb" "octetGroup gc" "octetGroup gd"
    by (rule validateIP_cases)
  let ?r = "\<lambda>g. natToRadix 10 (digitsValue 10 0 g)"
  have c: "canonicalIp s = ?r ga @ CHR ''.'' # ?r gb @ CHR ''.'' # ?r gc @ CHR ''.'' # ?r gd"
    using assms sp by (rule canonicalIp_four)
  have "splitOn CHR ''.'' (canonicalIp s) = [?r ga, ?r gb, ?r gc, ?r gd]"
    unfolding c by (simp add: splitOn_four natToRadix_no_dot)
  from ipToBinary_four [OF v this] ipToBinary_four [OF assms sp]
  show "ipToBinary (canonicalIp s) = ipToBinary s"
    by (simp add: digitsValue_natToRadix)
qed

lemma toInt32_octet: "a < 256 \<Longrightarrow> toInt32 (Some (int a)) = int a"
  by (simp add: toInt32_def signed_take_bit_int_eq_self)

lemma enumerate_four: "enumerate 0 [a, b, c, d] = [(0, a), (1, b), (2, c), (3, d)]"
  by (simp add: enumerate_eq_zip upt_rec)

lemma and_octet:
  fixes a b :: nat
  assumes "a < 256"
  shows "0 \<le> int a AND int b" "int a AND int b < 256"
proof -
  show "0 \<le> int a AND int b" by simp
  have "int a AND int b \<le> int a" by (rule AND_upper1) simp
  with assms show "int a AND int b < 256" by simp
qed

lemma or_octet:
  fixes a b :: nat
  assumes "a < 256" "b < 256"
  shows "0 \<le> int a OR int b" "int a OR int b < 256"
proof -
  show "0 \<le> int a OR int b" by simp
  have "int a OR int b < 2 ^ 8" using assms by (intro OR_upper) simp_all
  then show "int a OR int b < 256" by simp
qed

lemma bitwiseAnd_canonical:
  assumes "validateIP x" "validateIP y"
  shows "\<exists>n. bitwiseAnd x y = ipOfValue n"
proof -
  from assms(1) obtain a1 b1 c1 d1
    where x: "map toNumber (splitOn CHR ''.'' x) = [Some (int a1), Some (int b1), Some (int c1), Some (int d1)]"
      and rx: "a1 < 256" "b1 < 256" "c1 < 256" "d1 < 256"
    by (rule octets_of_valid)
  from assms(2) obtain a2 b2 c2 d2
    where y: "map toNumber (splitOn CHR ''.'' y) = [Some (int a2), Some (int b2), Some (int c2), Some (int d2)]"
      and ry: "a2 < 256" "b2 < 256" "c2 < 256" "d2 < 256"
    by (rule octets_of_valid)
  have "bitwiseAnd x y = joinWith ''.'' (map toString
      [Some (int a1 AND int a2), Some (int b1 AND int b2), Some (int c1 AND int c2), Some (int d1 AND int d2)])"
    unfolding bitwiseAnd_def x y Let_def enumerate_four
    using rx ry by (simp add: nthOrUndefined_def toInt32_octet)
  also have "\<dots> = ipOfValue (((nat (int a1 AND int a2) * 256 + nat (int b1 AND int b2)) * 256
      + nat (int c1 AND int c2)) * 256 + nat (int d1 AND int d2))"
    using rx by (intro join_octets_int and_octet)
  finally show ?thesis ..
qed

lemma bitwiseOr_canonical:
  assumes "bitwiseOr x y = Inr z"
  shows "\<exists>n. z = ipOfValue n"
proof -
  from assms have v: "validateIP x" "validateIP y"
    by (auto simp add: bitwiseOr_def split: if_splits)
  from v(1) obtain a1 b1 c1 d1
    where x: "map toNumber (splitOn CHR ''.'' x) = [Some (int a1), Some (int b1), Some (int c1), Some (int d1)]"
      and rx: "a1 < 256" "b1 < 256" "c1 < 256" "d1 < 256"
    by (rule octets_of_valid)
  from v(2) obtain a2 b2 c2 d2
    where y: "map toNumber (splitOn CHR ''.'' y) = [Some (int a2), Some (int b2), Some (int c2), Some (int d2)]"
      and ry: "a2 < 256" "b2 < 256" "c2 < 256" "d2 < 256"
    by (rule octets_of_valid)
  have "bitwiseOr x y = Inr (joinWith ''.'' (map toString
      [Some (int a1 OR int a2), Some (int b1 OR int b2), Some (int c1 OR int c2), Some (int d1 OR int d2)]))"
    unfolding bitwiseOr_def x y Let_def enumerate_four
    using rx ry v by (simp add: nthOrUndefined_def toInt32_octet)
  also have "joinWith ''.'' (map toString
      [Some (int a1 OR int a2), Some (int b1 OR int b2), Some (int c1 OR int c2), Some (int d1 OR int d2)])
    = ipOfValue (((nat (int a1 OR int a2) * 256 + nat (int b1 OR int b2)) * 256
      + nat (int c1 OR int c2)) * 256 + nat (int d1 OR int d2))"
    using rx ry by (intro join_octets_int or_octet)
  finally show ?thesis using assms by auto
qed

lemma getWildcardMask_canonical:
  assumes "getWildcardMask maskStr = Inr w" "validateIP maskStr"
  shows "\<exists>n. w = ipOfValue n"
proof -
  from assms(2) obtain ga gb gc gd where sp: "splitOn CHR ''.'' maskStr = [ga, gb, gc, gd]"
    and o: "octetGroup ga" "octetGroup gb" "octetGroup gc" "octetGroup gd"
    by (rule validateIP_cases)
  let ?v = "\<lambda>g. 255 - int (digitsValue 10 0 g)"
  from assms(1) have "w = joinWith ''.'' (map toString [Some (?v ga), Some (?v gb), Some (?v gc), Some (?v gd)])"
    using o by (auto simp add: getWildcardMask_def sp octetGroup_parseInt num_sub_def split: if_splits)
  also have "\<dots> = ipOfValue (((nat (?v ga) * 256 + nat (?v gb)) * 256 + nat (?v gc)) * 256 + nat (?v gd))"
    using o by (intro join_octets_int) (simp_all add: octetGroup_def)
  finally show ?thesis ..
qed

section \<open>A calculation, step by step\<close>

lemma calculateSubnet_steps:
  assumes "validateIP ip" "resolveMask m = Inr maskStr" "validateSubnetMask maskStr"
    "getWildcardMask maskStr = Inr wildcard" "bitwiseAnd ip maskStr = network"
    "bitwiseOr network wildcard = Inr broadcast"
    "ipToBinary ip = Inr binIP" "ipToBinary maskStr = Inr binMask"
    "incrementIp network = Inr first0" "decrementIp broadcast = Inr last0"
    "maskToCidr maskStr = Inr cidr"
  shows "calculateSubnet ip m =
     Inr \<lparr> networkAddress = network, broadcastAddress = broadcast,
           firstHost = (if cidr \<ge> 31 then network else first0),
           lastHost = (if cidr \<ge> 31 then broadcast else last0),
           totalHosts = 2 ^ nat (32 - cidr),
           usableHosts = (if cidr \<ge> 31 then 2 ^ nat (32 - cidr) else max 0 (2 ^ nat (32 - cidr) - 2)),
           subnetMask = maskStr, wildcardMask = wildcard,
           binaryIP = binIP, binaryMask = binMask \<rparr>"
  using assms by (simp add: calculateSubnet_def bindE_def Let_def)

lemmas ev_bitwise = bitwiseAnd_def bitwiseOr_def nthOrUndefined_def enumerate_eq_zip

lemma calculateSubnet_example_24:
  "calculateSubnet ''192.168.001.001'' ''/24'' =
     Inr \<lparr> networkAddress = ''192.168.1.0'', broadcastAddress = ''192.168.1.255'',
           firstHost = ''192.168.1.1'', lastHost = ''192.168.1.254'',
           totalHosts = 256, usableHosts = 254,
           subnetMask = ''255.255.255.0'', wildcardMask = ''0.0.0.255'',
           binaryIP = ''11000000.10101000.00000001.00000001'',
           binaryMask = ''11111111.11111111.11111111.00000000'' \<rparr>"
proof -
  have v: "validateIP ''192.168.001.001''" by (simp add: ev_ip ev_string)
  have vm: "validateIP ''255.255.255.0''" by (simp add: ev_ip ev_string)
  have vn: "validateIP ''192.168.1.0''" by (simp add: ev_ip ev_string)
  have vw: "validateIP ''0.0.0.255''" by (simp add: ev_ip ev_string)
  have vb: "validateIP ''192.168.1.255''" by (simp add: ev_ip ev_string)
  have rm: "resolveMask ''/24'' = Inr ''255.255.255.0''"
    by (simp add: resolveMask_def cidrToMask_def ev_string ev_num)
  have bm: "ipToBinary ''255.255.255.0'' = Inr ''11111111.11111111.11111111.00000000''"
    by (simp add: ipToBinary_def vm ev_string ev_num)
  have bi: "ipToBinary ''192.168.001.001'' = Inr ''11000000.10101000.00000001.00000001''"
    by (simp add: ipToBinary_def v ev_string ev_num)
  have sm: "validateSubnetMask ''255.255.255.0''"
    by (simp add: validateSubnetMask_def vm bm hasOnlyBinary_def hasLeadingOnes_def ev_string)
  have w: "getWildcardMask ''255.255.255.0'' = Inr ''0.0.0.255''"
    by (simp add: getWildcardMask_def sm ev_string ev_num)
  have n: "bitwiseAnd ''192.168.001.001'' ''255.255.255.0'' = ''192.168.1.0''"
    by (simp add: ev_bitwise ev_string ev_num)
  have b: "bitwiseOr ''192.168.1.0'' ''0.0.0.255'' = Inr ''192.168.1.255''"
    by (simp add: ev_bitwise vn vw ev_string ev_num)
  have i: "incrementIp ''192.168.1.0'' = Inr ''192.168.1.1''"
    by (simp add: incrementIp_def vn incrementLoop_four ev_string ev_num)
  have d: "decrementIp ''192.168.1.255'' = Inr ''192.168.1.254''"
    by (simp add: decrementIp_def vb decrementLoop_four ev_string ev_num)
  have c: "maskToCidr ''255.255.255.0'' = Inr 24"
    by (simp add: maskToCidr_def sm bm ev_string)
  from calculateSubnet_steps [OF v rm sm w n b bi bm i d c] show ?thesis by simp
qed

lemma calculateSubnet_fields_canonical:
  assumes "calculateSubnet ip m = Inr r"
  shows "\<exists>n. networkAddress r = ipOfValue n" "\<exists>n. broadcastAddress r = ipOfValue n"
    "\<exists>n. firstHost r = ipOfValue n" "\<exists>n. lastHost r = ipOfValue n"
    "\<exists>n. wildcardMask r = ipOfValue n"
proof -
  from assms obtain maskStr wildcard broadcast first0 last0 cidr
    where v: "validateIP ip" and w: "getWildcardMask maskStr = Inr wildcard"
      and b: "bitwiseOr (bitwiseAnd ip maskStr) wildcard = Inr broadcast"
      and i: "incrementIp (bitwiseAnd ip maskStr) = Inr first0"
      and d: "decrementIp broadcast = Inr last0"
      and c: "maskToCidr maskStr = Inr cidr"
      and r: "networkAddress r = bitwiseAnd ip maskStr" "broadcastAddress r = broadcast"
        "firstHost r = (if cidr \<ge> 31 then bitwiseAnd ip maskStr else first0)"
        "lastHost r = (if cidr \<ge> 31 then broadcast else last0)"
        "wildcardMask r = wildcard"
    by (rule calculateSubnet_success) simp
  from c have vm: "validateIP maskStr" by (rule maskToCidr_success)
  from v vm show n: "\<exists>n. networkAddress r = ipOfValue n"
    unfolding r by (rule bitwiseAnd_canonical)
  from b show bc: "\<exists>n. broadcastAddress r = ipOfValue n"
    unfolding r by (rule bitwiseOr_canonical)
  from w vm show "\<exists>n. wildcardMask r = ipOfValue n"
    unfolding r by (rule getWildcardMask_canonical)
  from i have "validateIP (bitwiseAnd ip maskStr)"
    by (auto simp add: incrementIp_def split: if_splits)
  with i have "\<exists>n. first0 = ipOfValue n"
    by (auto simp add: incrementIp_valid split: if_splits)
  with n show "\<exists>n. firstHost r = ipOfValue n" unfolding r by simp
  from d have "validateIP broadcast"
    by (auto simp add: decrementIp_def split: if_splits)
  with d have "\<exists>n. last0 = ipOfValue n"
    by (auto simp add: decrementIp_valid split: if_splits)
  with bc show "\<exists>n. lastHost r = ipOfValue n" unfolding r by simp
qed

lemma cidrToMask_no_error: "0 \<le> n \<Longrightarrow> n \<le> 32 \<Longrightarrow> cidrToMask (Some n) \<noteq> Inl e"
  by (simp add: cidrToMask_def)

lemma calculateSubnet_error_kinds:
  assumes "calculateSubnet ip m = Inl e"
  shows "e = InvalidAddress \<or> e = InvalidMask \<or> e = InvalidCidr \<or> e = AddressSpaceExhausted"
proof -
  have rm: "resolveMask m = Inl x \<Longrightarrow> x = InvalidCidr" for x
    by (auto simp add: resolveMask_def Let_def num_lt_def cidrToMask_def
        split: if_splits option.splits)
  have gw: "getWildcardMask k = Inl x \<Longrightarrow> x = InvalidMask" for k x
    by (auto simp add: getWildcardMask_def split: if_splits)
  have bo: "bitwiseOr k l = Inl x \<Longrightarrow> x = InvalidAddress" for k l x
    by (auto simp add: bitwiseOr_def Let_def split: if_splits)
  have ib: "ipToBinary k = Inl x \<Longrightarrow> x = InvalidAddress" for k x
    by (auto simp add: ipToBinary_def split: if_splits)
  have ii: "x = InvalidAddress \<or> x = AddressSpaceExhausted" if "incrementIp k = Inl x" for k x
  proof (cases "validateIP k")
    case True
    with that show ?thesis by (simp add: incrementIp_valid split: if_splits)
  next
    case False
    with that show ?thesis by (simp add: incrementIp_def)
  qed
  have di: "x = InvalidAddress \<or> x = AddressSpaceExhausted" if "decrementIp k = Inl x" for k x
  proof (cases "validateIP k")
    case True
    with that show ?thesis by (simp add: decrementIp_valid split: if_splits)
  next
    case False
    with that show ?thesis by (simp add: decrementIp_def)
  qed
  have mc: "maskToCidr k = Inl x \<Longrightarrow> x = InvalidMask \<or> x = InvalidAddress" for k x
    by (auto simp add: maskToCidr_def dest: ib split: if_splits sum.splits)
  from assms show ?thesis
    unfolding calculateSubnet_def bindE_def Let_def
    by (auto split: if_splits sum.splits dest: rm gw bo ib ii di mc)
qed

section \<open>Where a calculation fails\<close>

lemma octetsOf_valid:
  assumes "validateIP s"
  obtains a b c d where "octetsOf s = [a, b, c, d]" "a < 256" "b < 256" "c < 256" "d < 256"
    "map toNumber (splitOn CHR ''.'' s) = [Some (int a), Some (int b), Some (int c), Some (int d)]"
    "ipValue s = ((a * 256 + b) * 256 + c) * 256 + d"
proof -
  from assms obtain ga gb gc gd where sp: "splitOn CHR ''.'' s = [ga, gb, gc, gd]"
    and o: "octetGroup ga" "octetGroup gb" "octetGroup gc" "octetGroup gd"
    by (rule validateIP_cases)
  show ?thesis
    by (rule that [of "digitsValue 10 0 ga" "digitsValue 10 0 gb" "digitsValue 10 0 gc" "digitsValue 10 0 gd"])
      (use sp o in \<open>simp_all add: octetsOf_def octetGroup_toNumber octetGroup_value ipValue_four\<close>)
qed

lemma octetsOf_ipOfValue:
  assumes "a < 256" "b < 256" "c < 256" "d < 256"
  shows "octetsOf (ipOfValue (((a * 256 + b) * 256 + c) * 256 + d)) = [a, b, c, d]"
  unfolding ipOfValue_octets [OF assms] octetsOf_def
  by (simp add: splitOn_four natToRadix_no_dot digitsValue_natToRadix)

lemma octetsOf_join:
  assumes "0 \<le> a" "a < 256" "0 \<le> b" "b < 256" "0 \<le> c" "c < 256" "0 \<le> d" "d < 256"
  shows "octetsOf (joinWith ''.'' (map toString [Some a, Some b, Some c, Some d]))
         = [nat a, nat b, nat c, nat d]"
    "validateIP (joinWith ''.'' (map toString [Some a, Some b, Some c, Some d]))"
proof -
  have j: "joinWith ''.'' (map toString [Some a, Some b, Some c, Some d])
         = ipOfValue (((nat a * 256 + nat b) * 256 + nat c) * 256 + nat d)"
    using assms by (rule join_octets_int)
  show "octetsOf (joinWith ''.'' (map toString [Some a, Some b, Some c, Some d]))
         = [nat a, nat b, nat c, nat d]"
    unfolding j using assms by (intro octetsOf_ipOfValue) simp_all
  show "validateIP (joinWith ''.'' (map toString [Some a, Some b, Some c, Some d]))"
    unfolding j by (rule validateIP_ipOfValue)
qed

lemma bitwiseAnd_octets:
  assumes "validateIP x" "validateIP y"
  shows "validateIP (bitwiseAnd x y)"
    "octetsOf (bitwiseAnd x y) = map2 (\<lambda>a b. nat (int a AND int b)) (octetsOf x) (octetsOf y)"
proof -
  from assms(1) obtain a1 b1 c1 d1 where ox: "octetsOf x = [a1, b1, c1, d1]"
    and rx: "a1 < 256" "b1 < 256" "c1 < 256" "d1 < 256"
    and x: "map toNumber (splitOn CHR ''.'' x) = [Some (int a1), Some (int b1), Some (int c1), Some (int d1)]"
    by (rule octetsOf_valid)
  from assms(2) obtain a2 b2 c2 d2 where oy: "octetsOf y = [a2, b2, c2, d2]"
    and ry: "a2 < 256" "b2 < 256" "c2 < 256" "d2 < 256"
    and y: "map toNumber (splitOn CHR ''.'' y) = [Some (int a2), Some (int b2), Some (int c2), Some (int d2)]"
    by (rule octetsOf_valid)
  have e: "bitwiseAnd x y = joinWith ''.'' (map toString
      [Some (int a1 AND int a2), Some (int b1 AND int b2), Some (int c1 AND int c2), Some (int d1 AND int d2)])"
    unfolding bitwiseAnd_def x y Let_def enumerate_four
    using rx ry by (simp add: nthOrUndefined_def toInt32_octet)
  show "validateIP (bitwiseAnd x y)"
    unfolding e using rx by (intro octetsOf_join and_octet)
  have "octetsOf (bitwiseAnd x y) = [nat (int a1 AND int a2), nat (int b1 AND int b2),
      nat (int c1 AND int c2), nat (int d1 AND int d2)]"
    unfolding e using rx by (intro octetsOf_join and_octet)
  then show "octetsOf (bitwiseAnd x y) = map2 (\<lambda>a b. nat (int a AND int b)) (octetsOf x) (octetsOf y)"
    by (simp add: ox oy)
qed

lemma bitwiseOr_octets:
  assumes "validateIP x" "validateIP y"
  obtains z where "bitwiseOr x y = Inr z" "validateIP z"
    "octetsOf z = map2 (\<lambda>a b. nat (int a OR int b)) (octetsOf x) (octetsOf y)"
proof -
  from assms(1) obtain a1 b1 c1 d1 where ox: "octetsOf x = [a1, b1, c1, d1]"
    and rx: "a1 < 256" "b1 < 256" "c1 < 256" "d1 < 256"
    and x: "map toNumber (splitOn CHR ''.'' x) = [Some (int a1), Some (int b1), Some (int c1), Some (int d1)]"
    by (rule octetsOf_valid)
  from assms(2) obtain a2 b2 c2 d2 where oy: "octetsOf y = [a2, b2, c2, d2]"
    and ry: "a2 < 256" "b2 < 256" "c2 < 256" "d2 < 256"
    and y: "map toNumber (splitOn CHR ''.'' y) = [Some (int a2), Some (int b2), Some (int c2), Some (int d2)]"
    by (rule octetsOf_valid)
  let ?z = "joinWith ''.'' (map toString
      [Some (int a1 OR int a2), Some (int b1 OR int b2), Some (int c1 OR int c2), Some (int d1 OR int d2)])"
  have e: "bitwiseOr x y = Inr ?z"
    unfolding bitwiseOr_def x y Let_def enumerate_four
    using rx ry assms by (simp add: nthOrUndefined_def toInt32_octet)
  have v: "validateIP ?z" using rx ry by (intro octetsOf_join or_octet)
  have "octetsOf ?z = [nat (int a1 OR int a2), nat (int b1 OR int b2),
      nat (int c1 OR int c2), nat (int d1 OR int d2)]"
    using rx ry by (intro octetsOf_join or_octet)
  then have "octetsOf ?z = map2 (\<lambda>a b. nat (int a OR int b)) (octetsOf x) (octetsOf y)"
    by (simp add: ox oy)
  with e v show ?thesis by (rule that)
qed

lemma getWildcardMask_octets:
  assumes "validateIP maskStr" "validateSubnetMask maskStr"
  obtains w where "getWildcardMask maskStr = Inr w" "validateIP w"
    "octetsOf w = map (\<lambda>a. 255 - a) (octetsOf maskStr)"
proof -
  from assms(1) obtain ga gb gc gd where sp: "splitOn CHR ''.'' maskStr = [ga, gb, gc, gd]"
    and o: "octetGroup ga" "octetGroup gb" "octetGroup gc" "octetGroup gd"
    by (rule validateIP_cases)
  let ?v = "\<lambda>g. 255 - int (digitsValue 10 0 g)"
  let ?w = "joinWith ''.'' (map toString [Some (?v ga), Some (?v gb), Some (?v gc), Some (?v gd)])"
  have e: "getWildcardMask maskStr = Inr ?w"
    using o assms(2) by (simp add: getWildcardMask_def sp octetGroup_parseInt num_sub_def)
  have r: "0 \<le> ?v ga" "?v ga < 256" "0 \<le> ?v gb" "?v gb < 256" "0 \<le> ?v gc" "?v gc < 256"
    "0 \<le> ?v gd" "?v gd < 256"
    using o by (simp_all add: octetGroup_def)
  have v: "validateIP ?w" using r by (rule octetsOf_join)
  have "octetsOf ?w = [nat (?v ga), nat (?v gb), nat (?v gc), nat (?v gd)]"
    using r by (rule octetsOf_join)
  then have "octetsOf ?w = map (\<lambda>a. 255 - a) (octetsOf maskStr)"
    by (simp add: octetsOf_def sp nat_diff_distrib')
  with e v show ?thesis by (rule that)
qed

lemma and_255: "a < 256 \<Longrightarrow> nat (int a AND 255) = a"
proof -
  assume a: "a < 256"
  have "(255::int) = mask 8" by (simp add: mask_eq_exp_minus_1)
  then have "int a AND 255 = take_bit 8 (int a)" by (simp add: take_bit_eq_mask)
  also have "\<dots> = int a" using a by (intro take_bit_int_eq_self) simp_all
  finally show ?thesis by simp
qed

lemma and_le_right: "nat (int a AND int b) \<le> b"
proof -
  have "int a AND int b \<le> int b" by (rule AND_upper2) simp
  then show ?thesis by (simp add: nat_le_iff)
qed

lemma or_zero_right: "nat (int a OR int b) = 0 \<Longrightarrow> b = 0"
proof -
  assume "nat (int a OR int b) = 0"
  moreover have "0 \<le> int a OR int b" by simp
  ultimately have "int a OR int b = 0" by simp
  then show "b = 0" by (simp add: or_eq_0_iff)
qed

lemma bitsOf_last: "0 < k \<Longrightarrow> last (bitsOf k n) = (if odd n then CHR ''1'' else CHR ''0'')"
  by (cases k) simp_all

lemma mask_last_octet_even:
  assumes "validateIP maskStr" "prefixOnes L (binaryExpansion maskStr)" "L < 32"
    "octetsOf maskStr = [a, b, c, d]"
  shows "d \<le> 254"
proof -
  from assms(1) obtain a' b' c' d' where o: "octetsOf maskStr = [a', b', c', d']"
    and r: "d' < 256" and v: "ipValue maskStr = ((a' * 256 + b') * 256 + c') * 256 + d'"
    by (rule octetsOf_valid)
  from assms(2) have e: "bitsOf 32 (ipValue maskStr)
      = replicate L CHR ''1'' @ replicate (32 - L) CHR ''0''"
    by (simp add: prefixOnes_def binaryExpansion_def bitsOf_length)
  from assms(3) have "last (replicate L CHR ''1'' @ replicate (32 - L) CHR ''0'') = CHR ''0''"
    by simp
  with e have "last (bitsOf 32 (ipValue maskStr)) = CHR ''0''" by simp
  then have "even (ipValue maskStr)" by (simp add: bitsOf_last split: if_splits)
  with v have "even d'" by simp
  with r have "d' \<le> 254" by presburger
  with o assms(4) show ?thesis by simp
qed

lemma mask_all_ones:
  assumes "validateIP maskStr" "prefixOnes 32 (binaryExpansion maskStr)"
  shows "maskStr = ''255.255.255.255''"
proof -
  from assms(2) have "bitsOf 32 (ipValue maskStr) = replicate 32 CHR ''1''"
    by (simp add: prefixOnes_def binaryExpansion_def bitsOf_length)
  then have "digitsValue 2 0 (bitsOf 32 (ipValue maskStr)) = digitsValue 2 0 (replicate 32 CHR ''1'')"
    by simp
  moreover have "digitsValue 2 0 (replicate 32 CHR ''1'') = 4294967295"
    by (simp add: replicate_numeral digitVal_def)
  moreover have "ipValue maskStr mod 2 ^ 32 = ipValue maskStr"
    using ipValue_bound [OF assms(1)] by simp
  ultimately have "ipValue maskStr = 4294967295" by (simp add: digitsValue_bitsOf)
  with assms(1) show ?thesis using highest_address by blast
qed

lemma resolveMask_valid:
  assumes "validateSubnetMask m"
  obtains maskStr L where "resolveMask m = Inr maskStr" "validateIP maskStr"
    "validateSubnetMask maskStr" "prefixOnes L (binaryExpansion maskStr)" "L \<le> 32"
    "maskToCidr maskStr = Inr (int L)"
proof (cases "startsWith m CHR ''/''")
  case True
  with assms obtain n where n: "parseInt (substring m 1) 10 = Some n" "0 \<le> n" "n \<le> 32"
    using validateSubnetMask_cidr by blast
  from n(2,3) obtain k where k: "cidrToMask (Some n) = Inr k" "validateIP k"
    "prefixOnes (nat n) (binaryExpansion k)" "maskToCidr k = Inr n"
    by (rule cidrToMask_in_range)
  from True n k(1) have "resolveMask m = Inr k"
    by (simp add: resolveMask_def num_lt_def)
  moreover from k have "validateSubnetMask k"
    using validateSubnetMask_dotted hasLeadingOnes_iff by blast
  moreover from n have "nat n \<le> 32" "n = int (nat n)" by simp_all
  ultimately show ?thesis using k that [of k "nat n"] by simp
next
  case False
  with assms have v: "validateIP m" using validateSubnetMask_other by blast
  with assms obtain L where L: "prefixOnes L (binaryExpansion m)"
    using validateSubnetMask_dotted hasLeadingOnes_iff by blast
  then have "L \<le> 32" by (simp add: prefixOnes_def binaryExpansion_shape)
  moreover from v L have "maskToCidr m = Inr (int L)" by (rule maskToCidr_dotted)
  moreover from False have "resolveMask m = Inr m" by (rule resolveMask_dotted)
  ultimately show ?thesis using v assms L that by blast
qed

lemma last_octet:
  assumes "ipValue s = ((a * 256 + b) * 256 + c) * 256 + d" "d < 256"
  shows "ipValue s mod 256 = d"
  unfolding assms(1) using assms(2) by (rule octet_mod)

lemma calculateSubnet_on_valid_inputs:
  assumes "validateIP ip" "validateSubnetMask m"
  shows "\<exists>maskStr cidr. resolveMask m = Inr maskStr \<and> maskToCidr maskStr = Inr cidr \<and>
           (if cidr = 32 \<and> (ipValue ip = 0 \<or> ipValue ip = 4294967295)
            then calculateSubnet ip m = Inl AddressSpaceExhausted
            else \<exists>r. calculateSubnet ip m = Inr r)"
proof -
  from assms(2) obtain maskStr L where rm: "resolveMask m = Inr maskStr"
    and vm: "validateIP maskStr" and sm: "validateSubnetMask maskStr"
    and p: "prefixOnes L (binaryExpansion maskStr)" and L: "L \<le> 32"
    and mc: "maskToCidr maskStr = Inr (int L)"
    by (rule resolveMask_valid)
  from vm sm obtain w where w: "getWildcardMask maskStr = Inr w" and vw: "validateIP w"
    and ow: "octetsOf w = map (\<lambda>a. 255 - a) (octetsOf maskStr)"
    by (rule getWildcardMask_octets)
  let ?net = "bitwiseAnd ip maskStr"
  from assms(1) vm have vn: "validateIP ?net"
    and on: "octetsOf ?net = map2 (\<lambda>a b. nat (int a AND int b)) (octetsOf ip) (octetsOf maskStr)"
    by (rule bitwiseAnd_octets)+
  from vn vw obtain bc where bc: "bitwiseOr ?net w = Inr bc" and vb: "validateIP bc"
    and ob: "octetsOf bc = map2 (\<lambda>a b. nat (int a OR int b)) (octetsOf ?net) (octetsOf w)"
    by (rule bitwiseOr_octets)
  from assms(1) obtain bi where bi: "ipToBinary ip = Inr bi" by (simp add: ipToBinary_def)
  from vm obtain bm where bm: "ipToBinary maskStr = Inr bm" by (simp add: ipToBinary_def)
  from assms(1) obtain a1 b1 c1 d1 where oi: "octetsOf ip = [a1, b1, c1, d1]"
    and ri: "a1 < 256" "b1 < 256" "c1 < 256" "d1 < 256"
    and vi: "ipValue ip = ((a1 * 256 + b1) * 256 + c1) * 256 + d1"
    by (rule octetsOf_valid)
  from vm obtain a2 b2 c2 d2 where om: "octetsOf maskStr = [a2, b2, c2, d2]"
    by (rule octetsOf_valid)
  from vn obtain x1 x2 x3 x4 where oxn: "octetsOf ?net = [x1, x2, x3, x4]" and rn: "x4 < 256"
    and vnv: "ipValue ?net = ((x1 * 256 + x2) * 256 + x3) * 256 + x4"
    by (rule octetsOf_valid)
  from vb obtain y1 y2 y3 y4 where oyb: "octetsOf bc = [y1, y2, y3, y4]" and rb: "y4 < 256"
    and vbv: "ipValue bc = ((y1 * 256 + y2) * 256 + y3) * 256 + y4"
    by (rule octetsOf_valid)
  from on oi om oxn have xs: "x1 = nat (int a1 AND int a2)" "x2 = nat (int b1 AND int b2)"
    "x3 = nat (int c1 AND int c2)" "x4 = nat (int d1 AND int d2)" by simp_all
  from ob oxn ow om oyb have ys: "y1 = nat (int x1 OR int (255 - a2))"
    "y2 = nat (int x2 OR int (255 - b2))" "y3 = nat (int x3 OR int (255 - c2))"
    "y4 = nat (int x4 OR int (255 - d2))" by simp_all
  have inc: "incrementIp ?net = (if ipValue ?net = 4294967295 then Inl AddressSpaceExhausted
      else Inr (ipOfValue (ipValue ?net + 1)))" using vn by (rule incrementIp_valid)
  have dec: "decrementIp bc = (if ipValue bc = 0 then Inl AddressSpaceExhausted
      else Inr (ipOfValue (ipValue bc - 1)))" using vb by (rule decrementIp_valid)
  show ?thesis
  proof (cases "L = 32")
    case False
    with L have lt: "L < 32" by simp
    from vm p lt om have d2: "d2 \<le> 254" by (rule mask_last_octet_even)
    have "x4 \<le> d2" unfolding xs by (rule and_le_right)
    with d2 have "x4 \<noteq> 255" by simp
    moreover have "ipValue ?net mod 256 = x4" using vnv rn by (rule last_octet)
    ultimately have n1: "ipValue ?net \<noteq> 4294967295" by auto
    have "y4 \<noteq> 0"
    proof
      assume "y4 = 0"
      then have "255 - d2 = 0" unfolding ys by (rule or_zero_right)
      with d2 show False by simp
    qed
    moreover have "ipValue bc mod 256 = y4" using vbv rb by (rule last_octet)
    ultimately have n2: "ipValue bc \<noteq> 0" by auto
    from n1 inc obtain f0 where f0: "incrementIp ?net = Inr f0" by simp
    from n2 dec obtain l0 where l0: "decrementIp bc = Inr l0" by simp
    from calculateSubnet_steps [OF assms(1) rm sm w refl bc bi bm f0 l0 mc]
    have "\<exists>r. calculateSubnet ip m = Inr r" by blast
    with rm mc False show ?thesis by auto
  next
    case True
    with p vm have ms: "maskStr = ''255.255.255.255''" using mask_all_ones by blast
    have "octetsOf ''255.255.255.255'' = [255, 255, 255, 255]"
      by (simp add: octetsOf_def ev_string)
    with om ms have m2: "a2 = 255" "b2 = 255" "c2 = 255" "d2 = 255" by simp_all
    from xs ri have xe: "x1 = a1" "x2 = b1" "x3 = c1" "x4 = d1"
      unfolding m2 by (simp_all add: and_255)
    from ys have ye: "y1 = a1" "y2 = b1" "y3 = c1" "y4 = d1"
      unfolding m2 xe by simp_all
    from vnv vi have en: "ipValue ?net = ipValue ip" unfolding xe by simp
    from vbv vi have eb: "ipValue bc = ipValue ip" unfolding ye by simp
    consider (top) "ipValue ip = 4294967295" | (bot) "ipValue ip = 0"
      | (mid) "ipValue ip \<noteq> 4294967295" "ipValue ip \<noteq> 0" by blast
    then have "if ipValue ip = 0 \<or> ipValue ip = 4294967295
               then calculateSubnet ip m = Inl AddressSpaceExhausted
               else \<exists>r. calculateSubnet ip m = Inr r"
    proof cases
      case top
      with inc en have "incrementIp ?net = Inl AddressSpaceExhausted" by simp
      with assms(1) rm sm w bc bi bm top show ?thesis
        by (simp add: calculateSubnet_def bindE_def)
    next
      case bot
      with inc en obtain f0 where "incrementIp ?net = Inr f0" by simp
      moreover from bot dec eb have "decrementIp bc = Inl AddressSpaceExhausted" by simp
      ultimately show ?thesis using assms(1) rm sm w bc bi bm bot
        by (simp add: calculateSubnet_def bindE_def)
    next
      case mid
      with inc en obtain f0 where f0: "incrementIp ?net = Inr f0" by simp
      from mid dec eb obtain l0 where l0: "decrementIp bc = Inr l0" by simp
      from calculateSubnet_steps [OF assms(1) rm sm w refl bc bi bm f0 l0 mc]
      have "\<exists>r. calculateSubnet ip m = Inr r" by blast
      with mid show ?thesis by simp
    qed
    with rm mc True show ?thesis by auto
  qed
qed

lemma calculateSubnet_invalid_address:
  "\<not> validateIP ip \<Longrightarrow> calculateSubnet ip m = Inl InvalidAddress"
  by (simp add: calculateSubnet_def)

lemma calculateSubnet_invalid_mask:
  assumes "validateIP ip" "\<not> validateSubnetMask m"
  shows "calculateSubnet ip m = Inl (if startsWith m CHR ''/'' then InvalidCidr else InvalidMask)"
proof (cases "startsWith m CHR ''/''")
  case True
  with assms(2) have "resolveMask m = Inl InvalidCidr"
    by (auto simp add: resolveMask_def validateSubnetMask_def Let_def num_le_def num_lt_def
        split: option.splits)
  with assms(1) True show ?thesis by (simp add: calculateSubnet_def bindE_def)
next
  case False
  then have "resolveMask m = Inr m" by (rule resolveMask_dotted)
  moreover from assms(2) have "getWildcardMask m = Inl InvalidMask"
    by (simp add: getWildcardMask_def)
  ultimately show ?thesis using assms(1) False by (simp add: calculateSubnet_def bindE_def)
qed

text \<open>Whenever the function does return, the special case holds.\<close>

lemma calculateSubnet_point_to_point:
  assumes "calculateSubnet ip m = Inr r" "maskToCidr (subnetMask r) = Inr cidr" "31 \<le> cidr"
  shows "firstHost r = networkAddress r \<and> lastHost r = broadcastAddress r"
proof -
  from assms(1) obtain maskStr broadcast first0 last0 c
    where "maskToCidr maskStr = Inr c" "subnetMask r = maskStr"
      "networkAddress r = bitwiseAnd ip maskStr" "broadcastAddress r = broadcast"
      "firstHost r = (if c \<ge> 31 then bitwiseAnd ip maskStr else first0)"
      "lastHost r = (if c \<ge> 31 then broadcast else last0)"
    by (rule calculateSubnet_success) simp
  with assms(2,3) show ?thesis by simp
qed

lemma calculateSubnet_example_32:
  "calculateSubnet ''192.168.1.1'' ''255.255.255.255'' =
     Inr \<lparr> networkAddress = ''192.168.1.1'', broadcastAddress = ''192.168.1.1'',
           firstHost = ''192.168.1.1'', lastHost = ''192.168.1.1'',
           totalHosts = 1, usableHosts = 1,
           subnetMask = ''255.255.255.255'', wildcardMask = ''0.0.0.0'',
           binaryIP = ''11000000.10101000.00000001.00000001'',
           binaryMask = ''11111111.11111111.11111111.11111111'' \<rparr>"
proof -
  have v: "validateIP ''192.168.1.1''" by (simp add: ev_ip ev_string)
  have bi: "ipToBinary ''192.168.1.1'' = Inr ''11000000.10101000.00000001.00000001''"
    by (simp add: ipToBinary_def v ev_string ev_num)
  have n: "bitwiseAnd ''192.168.1.1'' ''255.255.255.255'' = ''192.168.1.1''"
    by (simp add: ev_bitwise ev_string ev_num)
  have b: "bitwiseOr ''192.168.1.1'' ''0.0.0.0'' = Inr ''192.168.1.1''"
    by (simp add: ev_bitwise v validateIP_lowest ev_string ev_num)
  have i: "incrementIp ''192.168.1.1'' = Inr ''192.168.1.2''"
    by (simp add: incrementIp_def v incrementLoop_four ev_string ev_num)
  have d: "decrementIp ''192.168.1.1'' = Inr ''192.168.1.0''"
    by (simp add: decrementIp_def v decrementLoop_four ev_string ev_num)
  have c: "maskToCidr ''255.255.255.255'' = Inr 32"
    by (simp add: maskToCidr_def validateSubnetMask_highest ipToBinary_highest ev_string)
  from calculateSubnet_steps [OF v resolveMask_dotted32 validateSubnetMask_highest
      getWildcardMask_highest n b bi ipToBinary_highest i d c]
  show ?thesis by simp
qed

section \<open>validateIP\<close>

text \<open>
  C6: \<open>validateIP s\<close> is true exactly when \<open>s\<close> splits at its dots into four groups, each
  of 1 to 3 decimal digits with a value of at most 255. The function is total: it answers
  false, and never fails, on a missing or an extra group, on a character that is not a
  digit (white space around the address included) and on an octet out of range.
\<close>

theorem validateIP_four_octets:
  "validateIP s \<longleftrightarrow>
     (length (splitOn CHR ''.'' s) = 4 \<and>
      (\<forall>g\<in>set (splitOn CHR ''.'' s).
          1 \<le> length g \<and> length g \<le> 3 \<and> (\<forall>c\<in>set g. isDigit c) \<and> digitsValue 10 0 g \<le> 255))"
  by (simp add: validateIP_iff octetGroup_def digitGroup_def list_all_iff)

theorem validateIP_four_octets_witness:
  "validateIP ''192.168.1.1'' \<and> splitOn CHR ''.'' ''192.168.1.1'' = [''192'', ''168'', ''1'', ''1'']
   \<and> \<not> validateIP ''192.168.1'' \<and> \<not> validateIP ''192.168.1.1.1''
   \<and> \<not> validateIP '' 192.168.1.1'' \<and> \<not> validateIP ''192.168.1.256''"
  using validateIP_four_octets [of "''192.168.1.1''"] validateIP_four_octets [of "''192.168.1''"]
    validateIP_four_octets [of "''192.168.1.1.1''"] validateIP_four_octets [of "'' 192.168.1.1''"]
    validateIP_four_octets [of "''192.168.1.256''"]
  by (simp add: ev_string)

section \<open>binaryToIp\<close>

text \<open>
  C4: \<open>binaryToIp\<close> is meant to accept four groups of eight binary digits separated by
  dots only. The pattern makes every dot optional and allows one after the last group, so
  the function returns a value on a string with a trailing dot and on 32 digits with no
  dot at all.
\<close>

theorem binaryToIp_optional_dots:
  "binaryToIp ''11000000.10101000.00000001.00000001.'' = Inr ''192.168.1.1.NaN''
   \<and> binaryToIp ''11000000101010000000000100000001'' = Inr ''3232235777''"
proof -
  have four: "(4::nat) = Suc (Suc (Suc (Suc 0)))" by simp
  have "binaryRegex_test ''11000000.10101000.00000001.00000001.''"
    unfolding binaryRegex_test_def four
    by (simp add: binaryGroup_def bits8_def optional_def lit_def ev_string)
  moreover have "binaryRegex_test ''11000000101010000000000100000001''"
    unfolding binaryRegex_test_def four
    by (simp add: binaryGroup_def bits8_def optional_def lit_def ev_string)
  ultimately show ?thesis
    by (simp add: binaryToIp_def ev_string ev_num)
qed

section \<open>The round trip through the binary form\<close>

text \<open>
  C3, as amended: for a valid address \<open>s\<close>, \<open>binaryToIp (ipToBinary s)\<close> is the canonical
  form of \<open>s\<close>, the same address with every octet written without leading zeros. It is
  \<open>s\<close> itself exactly when no octet of \<open>s\<close> has a leading zero.
\<close>

theorem binaryToIp_ipToBinary_canonical:
  "validateIP s \<Longrightarrow>
     bindE (ipToBinary s) binaryToIp = Inr (canonicalIp s)
     \<and> (canonicalIp s = s \<longleftrightarrow> noLeadingZeros s)"
  by (simp add: binaryToIp_ipToBinary canonicalIp_fixed)

theorem binaryToIp_ipToBinary_canonical_witness:
  "validateIP ''192.168.1.1'' \<and> noLeadingZeros ''192.168.1.1''
   \<and> bindE (ipToBinary ''192.168.1.1'') binaryToIp = Inr ''192.168.1.1''"
proof -
  have v: "validateIP ''192.168.1.1''" by (simp add: ev_ip ev_string)
  have n: "noLeadingZeros ''192.168.1.1''" by (simp add: noLeadingZeros_def plainGroup_def)
  from binaryToIp_ipToBinary_canonical [OF v] n v show ?thesis by simp
qed

theorem roundtrip_leading_zeros_counterexample:
  "validateIP ''192.168.001.001''
   \<and> bindE (ipToBinary ''192.168.001.001'') binaryToIp \<noteq> Inr ''192.168.001.001''"
proof -
  have v: "validateIP ''192.168.001.001''" by (simp add: ev_ip ev_string)
  have "\<not> noLeadingZeros ''192.168.001.001''" by (simp add: noLeadingZeros_def plainGroup_def)
  with v have "canonicalIp ''192.168.001.001'' \<noteq> ''192.168.001.001''"
    by (simp add: canonicalIp_fixed)
  with v show ?thesis by (simp add: binaryToIp_ipToBinary)
qed

section \<open>validateSubnetMask\<close>

text \<open>
  What the function accepts: a slash followed by a text from which \<open>parseInt\<close> reads an
  integer between 0 and 32, or a valid address whose 32 bits are a run of one-bits followed
  only by zero-bits. The dotted form is checked strictly: \<open>255.255.254.0\<close> is a mask and
  \<open>255.255.255.1\<close> is not.
\<close>

lemma validateSubnetMask_accepts:
  "validateSubnetMask s \<longleftrightarrow>
     (startsWith s CHR ''/'' \<and> (\<exists>n. readsInteger (substring s 1) n \<and> 0 \<le> n \<and> n \<le> 32))
     \<or> (validateIP s \<and> (\<exists>L. prefixOnes L (binaryExpansion s)))"
proof (cases "startsWith s CHR ''/''")
  case True
  then have "\<not> validateIP s" using validateIP_not_cidr by blast
  with True show ?thesis by (simp add: validateSubnetMask_cidr parseInt_readsInteger)
next
  case False
  show ?thesis
  proof (cases "validateIP s")
    case True
    with False show ?thesis by (simp add: validateSubnetMask_dotted hasLeadingOnes_iff)
  next
    case nv: False
    with False show ?thesis by (simp add: validateSubnetMask_other)
  qed
qed

lemma validateSubnetMask_examples:
  "validateSubnetMask ''255.255.254.0'' \<and> prefixOnes 23 (binaryExpansion ''255.255.254.0'')
   \<and> \<not> validateSubnetMask ''255.255.255.1'' \<and> validateSubnetMask ''/24''
   \<and> \<not> validateSubnetMask ''/33'' \<and> \<not> validateSubnetMask ''/abc''
   \<and> \<not> validateSubnetMask ''255.255.255'' \<and> \<not> validateSubnetMask ''255.255.255.0abc''"
proof -
  have v: "validateIP ''255.255.254.0''" by (simp add: ev_ip ev_string)
  have p: "prefixOnes 23 (binaryExpansion ''255.255.254.0'')" by (simp add: ev_bits ev_string)
  have m1: "validateSubnetMask ''255.255.254.0''"
    using validateSubnetMask_accepts [of "''255.255.254.0''"] v p by blast
  have "\<not> hasLeadingOnes (binaryExpansion ''255.255.255.1'')"
    by (simp add: hasLeadingOnes_def ev_bits ev_string)
  then have "\<not> (\<exists>L. prefixOnes L (binaryExpansion ''255.255.255.1''))"
    by (simp add: hasLeadingOnes_iff)
  then have m2: "\<not> validateSubnetMask ''255.255.255.1''"
    using validateSubnetMask_accepts [of "''255.255.255.1''"] by (simp add: startsWith_def)
  have m3: "validateSubnetMask ''/24''"
    by (simp add: validateSubnetMask_def ev_string ev_num)
  have m4: "\<not> validateSubnetMask ''/33''"
    by (simp add: validateSubnetMask_def ev_string ev_num)
  have m5: "\<not> validateSubnetMask ''/abc''"
    by (simp add: validateSubnetMask_def ev_string ev_num)
  have m6: "\<not> validateSubnetMask ''255.255.255''"
    by (simp add: validateSubnetMask_def ev_string ev_ip)
  have m7: "\<not> validateSubnetMask ''255.255.255.0abc''"
    by (simp add: validateSubnetMask_def ev_string ev_ip)
  from m1 p m2 m3 m4 m5 m6 m7 show ?thesis by simp
qed

text \<open>
  C5: \<open>validateSubnetMask s\<close> should be true only when \<open>s\<close> is a slash followed by an integer
  between 0 and 32, or a valid address whose bits are one-bits followed by zero-bits. The
  function reads the number after the slash with \<open>parseInt\<close>, which stops at the first
  character that is no digit and ignores the rest, so it answers true on a slash followed by
  \<open>24abc\<close>, by \<open>3.9\<close> and by \<open>0x1F\<close>, none of which is an integer numeral or an address.
\<close>

theorem validateSubnetMask_trailing_text:
  "validateSubnetMask ''/24abc'' \<and> \<not> integerNumeral ''24abc'' \<and> \<not> validateIP ''/24abc''
   \<and> validateSubnetMask ''/3.9'' \<and> \<not> integerNumeral ''3.9'' \<and> \<not> validateIP ''/3.9''
   \<and> validateSubnetMask ''/0x1F'' \<and> \<not> integerNumeral ''0x1F'' \<and> \<not> validateIP ''/0x1F''"
  by (simp add: validateSubnetMask_def integerNumeral_def ev_string ev_num ev_ip)

text \<open>\<open>calculateSubnet\<close> reads the number the same way and computes with the digits it read.\<close>

lemma resolveMask_trailing_text: "resolveMask ''/24abc'' = Inr ''255.255.255.0''"
  by (simp add: resolveMask_def cidrToMask_def ev_string ev_num)

section \<open>cidrToMask and maskToCidr\<close>

text \<open>
  C7: for an integer \<open>n\<close> from 0 to 32, \<open>cidrToMask n\<close> is a valid dotted mask whose 32 bits
  are \<open>n\<close> one-bits followed by zero-bits, and \<open>maskToCidr\<close> of that mask is \<open>n\<close>. For an
  integer outside 0 to 32, and for NaN, \<open>cidrToMask\<close> fails with OutOfRange.
\<close>

theorem cidrToMask_maskToCidr:
  "(0 \<le> n \<and> n \<le> 32 \<longrightarrow>
      (\<exists>m. cidrToMask (Some n) = Inr m \<and> validateIP m \<and> prefixOnes (nat n) (binaryExpansion m))
      \<and> bindE (cidrToMask (Some n)) maskToCidr = Inr n)
   \<and> (n < 0 \<or> 32 < n \<longrightarrow> cidrToMask (Some n) = Inl OutOfRange)
   \<and> cidrToMask None = Inl OutOfRange"
proof (intro conjI impI)
  assume "0 \<le> n \<and> n \<le> 32"
  then obtain m where m: "cidrToMask (Some n) = Inr m" "validateIP m"
    "prefixOnes (nat n) (binaryExpansion m)" "maskToCidr m = Inr n"
    by (auto elim: cidrToMask_in_range)
  then show "\<exists>m. cidrToMask (Some n) = Inr m \<and> validateIP m \<and> prefixOnes (nat n) (binaryExpansion m)"
    by blast
  from m show "bindE (cidrToMask (Some n)) maskToCidr = Inr n" by (simp add: bindE_def)
next
  assume "n < 0 \<or> 32 < n"
  then show "cidrToMask (Some n) = Inl OutOfRange" by (auto simp add: cidrToMask_def)
next
  show "cidrToMask None = Inl OutOfRange" by (simp add: cidrToMask_def)
qed

theorem cidrToMask_maskToCidr_witness:
  "cidrToMask (Some 24) = Inr ''255.255.255.0'' \<and> maskToCidr ''255.255.255.0'' = Inr 24
   \<and> cidrToMask (Some 33) = Inl OutOfRange \<and> cidrToMask (Some (- 1)) = Inl OutOfRange"
proof -
  have c: "cidrToMask (Some 24) = Inr ''255.255.255.0''"
    by (simp add: cidrToMask_def ev_string ev_num)
  from cidrToMask_maskToCidr [of 24] c have "maskToCidr ''255.255.255.0'' = Inr 24"
    by (simp add: bindE_def)
  with c cidrToMask_maskToCidr [of 33] cidrToMask_maskToCidr [of "- 1"] show ?thesis by simp
qed

section \<open>incrementIp and decrementIp\<close>

text \<open>
  C8, as amended: \<open>incrementIp\<close> fails with AddressSpaceExhausted exactly on the string
  \<open>255.255.255.255\<close>; \<open>decrementIp\<close> fails with AddressSpaceExhausted exactly on the valid
  strings that denote the address 0, which are \<open>0.0.0.0\<close> and its spellings with leading zeros;
  both fail with InvalidAddress on every string that \<open>validateIP\<close> rejects; on every other
  input they return the dotted form of the address one higher, or one lower.
\<close>

theorem increment_decrement_results:
  "(incrementIp s = Inl AddressSpaceExhausted \<longleftrightarrow> s = ''255.255.255.255'')
   \<and> (decrementIp s = Inl AddressSpaceExhausted \<longleftrightarrow> validateIP s \<and> ipValue s = 0)
   \<and> (\<not> validateIP s \<longrightarrow> incrementIp s = Inl InvalidAddress \<and> decrementIp s = Inl InvalidAddress)
   \<and> (validateIP s \<and> s \<noteq> ''255.255.255.255'' \<longrightarrow> incrementIp s = Inr (ipOfValue (ipValue s + 1)))
   \<and> (validateIP s \<and> ipValue s \<noteq> 0 \<longrightarrow> decrementIp s = Inr (ipOfValue (ipValue s - 1)))"
proof (cases "validateIP s")
  case True
  then have "ipValue s = 4294967295 \<longleftrightarrow> s = ''255.255.255.255''"
    using highest_address [of s] by simp
  with True show ?thesis by (simp add: incrementIp_valid decrementIp_valid)
next
  case False
  then have "s \<noteq> ''255.255.255.255''" using validateIP_highest by auto
  with False show ?thesis by (simp add: incrementIp_def decrementIp_def)
qed

theorem increment_decrement_results_witness:
  "validateIP ''1.2.3.255'' \<and> incrementIp ''1.2.3.255'' = Inr ''1.2.4.0''
   \<and> decrementIp ''1.2.3.255'' = Inr ''1.2.3.254''
   \<and> incrementIp ''255.255.255.255'' = Inl AddressSpaceExhausted
   \<and> \<not> validateIP ''1.2.3'' \<and> incrementIp ''1.2.3'' = Inl InvalidAddress
   \<and> decrementIp ''1.2.3'' = Inl InvalidAddress"
proof -
  have v: "validateIP ''1.2.3.255''" by (simp add: ev_ip ev_string)
  have n: "\<not> validateIP ''1.2.3''" by (simp add: ev_ip ev_string)
  have i: "ipValue ''1.2.3.255'' = 16909311" by (simp add: ipValue_def ev_string)
  have u: "ipOfValue 16909312 = ''1.2.4.0''" by (simp add: ipOfValue_def ev_string ev_num)
  have d: "ipOfValue 16909310 = ''1.2.3.254''" by (simp add: ipOfValue_def ev_string ev_num)
  from increment_decrement_results [of "''1.2.3.255''"] v i u d
    increment_decrement_results [of "''255.255.255.255''"]
    increment_decrement_results [of "''1.2.3''"] n
  show ?thesis by simp
qed

theorem decrementIp_leading_zeros_counterexample:
  "decrementIp ''000.0.0.0'' = Inl AddressSpaceExhausted \<and> ''000.0.0.0'' \<noteq> ''0.0.0.0''"
proof -
  have "validateIP ''000.0.0.0''" by (simp add: ev_ip ev_string)
  moreover have "ipValue ''000.0.0.0'' = 0" by (simp add: ipValue_def ev_string)
  ultimately show ?thesis by (simp add: decrementIp_valid)
qed

section \<open>calculateSubnet\<close>

text \<open>
  C1: for a prefix length of 31 or 32 the first and the last host are the network and the
  broadcast address. The function increments and decrements before it looks at the prefix
  length (lines 342 to 350), so on the highest address with a /32 it fails, with the error
  of \<open>incrementIp\<close>, where it should return that address four times. Everywhere else the
  special case holds (\<open>calculateSubnet_point_to_point\<close>, \<open>calculateSubnet_on_valid_inputs\<close>).
\<close>

theorem calculateSubnet_slash32_highest:
  "calculateSubnet ''255.255.255.255'' ''/32'' = Inl AddressSpaceExhausted"
  by (simp add: calculateSubnet_def bindE_def validateIP_highest resolveMask_slash32
      getWildcardMask_highest bitwiseAnd_highest bitwiseOr_highest validateSubnetMask_highest
      ipToBinary_highest incrementIp_highest)

text \<open>
  C2: a valid address with a valid mask should never fail, and the only kinds of failure
  should be InvalidAddress, InvalidMask and InvalidCidr. On the lowest address with the mask
  of a /32 the function fails with AddressSpaceExhausted, the error of \<open>decrementIp\<close>.
  With a valid address and a valid mask this happens for a /32 on the lowest and on the
  highest address and nowhere else (\<open>calculateSubnet_on_valid_inputs\<close>); the other failures
  are of the three kinds (\<open>calculateSubnet_invalid_address\<close>, \<open>calculateSubnet_invalid_mask\<close>).
\<close>

theorem calculateSubnet_mask32_lowest:
  "calculateSubnet ''0.0.0.0'' ''255.255.255.255'' = Inl AddressSpaceExhausted"
  by (simp add: calculateSubnet_def bindE_def validateIP_lowest resolveMask_dotted32
      getWildcardMask_highest bitwiseAnd_lowest bitwiseOr_lowest validateSubnetMask_highest
      ipToBinary_highest ipToBinary_lowest incrementIp_lowest decrementIp_lowest)



section \<open>Leading zeros\<close>

text \<open>
  C10: \<open>validateIP\<close> accepts octets with leading zeros, as in \<open>192.168.001.001\<close>, so different
  valid strings denote the same address. \<open>ipToBinary\<close> gives a valid string and its canonical
  form the same binary string. In a result of \<open>calculateSubnet\<close> the network address, the
  broadcast address, the first host, the last host and the wildcard mask are valid addresses
  with no leading zero. (The field \<open>subnetMask\<close> is a dotted input as it was given.)
\<close>

theorem leading_zeros_canonical:
  "validateIP ''192.168.001.001'' \<and> ''192.168.001.001'' \<noteq> ''192.168.1.1''
   \<and> ipValue ''192.168.001.001'' = ipValue ''192.168.1.1''
   \<and> (validateIP s \<longrightarrow>
         validateIP (canonicalIp s) \<and> noLeadingZeros (canonicalIp s)
         \<and> ipValue (canonicalIp s) = ipValue s \<and> ipToBinary s = ipToBinary (canonicalIp s))
   \<and> (calculateSubnet ip m = Inr r \<longrightarrow>
         list_all (\<lambda>f. validateIP f \<and> noLeadingZeros f)
           [networkAddress r, broadcastAddress r, firstHost r, lastHost r, wildcardMask r])"
proof (intro conjI impI)
  show "validateIP ''192.168.001.001''" by (simp add: ev_ip ev_string)
  show "''192.168.001.001'' \<noteq> ''192.168.1.1''" by simp
  show "ipValue ''192.168.001.001'' = ipValue ''192.168.1.1''" by (simp add: ipValue_def ev_string)
next
  assume v: "validateIP s"
  then show "validateIP (canonicalIp s)" "noLeadingZeros (canonicalIp s)"
    "ipValue (canonicalIp s) = ipValue s" "ipToBinary s = ipToBinary (canonicalIp s)"
    by (simp_all add: canonicalIp_same_address)
next
  assume "calculateSubnet ip m = Inr r"
  then have "\<exists>n. networkAddress r = ipOfValue n" "\<exists>n. broadcastAddress r = ipOfValue n"
    "\<exists>n. firstHost r = ipOfValue n" "\<exists>n. lastHost r = ipOfValue n"
    "\<exists>n. wildcardMask r = ipOfValue n"
    by (rule calculateSubnet_fields_canonical)+
  then show "list_all (\<lambda>f. validateIP f \<and> noLeadingZeros f)
           [networkAddress r, broadcastAddress r, firstHost r, lastHost r, wildcardMask r]"
    by (auto simp add: validateIP_ipOfValue noLeadingZeros_ipOfValue)
qed

theorem leading_zeros_canonical_witness:
  "validateIP ''192.168.001.001'' \<and> canonicalIp ''192.168.001.001'' = ''192.168.1.1''
   \<and> ipToBinary ''192.168.001.001'' = ipToBinary ''192.168.1.1''
   \<and> (\<exists>r. calculateSubnet ''192.168.001.001'' ''/24'' = Inr r
          \<and> networkAddress r = ''192.168.1.0'' \<and> noLeadingZeros (networkAddress r)
          \<and> noLeadingZeros (broadcastAddress r) \<and> noLeadingZeros (firstHost r)
          \<and> noLeadingZeros (lastHost r) \<and> noLeadingZeros (wildcardMask r))"
proof -
  let ?r = "\<lparr> networkAddress = ''192.168.1.0'', broadcastAddress = ''192.168.1.255'',
           firstHost = ''192.168.1.1'', lastHost = ''192.168.1.254'',
           totalHosts = 256, usableHosts = 254,
           subnetMask = ''255.255.255.0'', wildcardMask = ''0.0.0.255'',
           binaryIP = ''11000000.10101000.00000001.00000001'',
           binaryMask = ''11111111.11111111.11111111.00000000'' \<rparr>"
  have e: "calculateSubnet ''192.168.001.001'' ''/24'' = Inr ?r" by (rule calculateSubnet_example_24)
  have c: "canonicalIp ''192.168.001.001'' = ''192.168.1.1''"
    by (simp add: canonicalIp_def ipValue_def ipOfValue_def ev_string ev_num)
  from leading_zeros_canonical [of "''192.168.001.001''" "''192.168.001.001''" "''/24''" ?r] e c
  show ?thesis by simp
qed

end
